theory Spec2Isabelle
  imports Main "HOL-Library.Sublist" "HOL-Library.List_Lexorder" "HOL-Library.Char_ord"
    "HOL-Library.Multiset"
begin

section \<open>Go library functions used by the version engine\<close>

text \<open>
  Go strings are byte sequences; they are modelled as \<open>string\<close> (a list of 8-bit
  characters). The order on strings (\<open><\<close>, \<open>>\<close> of Go) is the lexicographic order on
  bytes, which is the order of \<open>List_Lexorder\<close> over \<open>Char_ord\<close>.
\<close>

subsection \<open>Package strings\<close>

definition HasPrefix :: "string \<Rightarrow> string \<Rightarrow> bool" where
  "HasPrefix s p \<longleftrightarrow> take (length p) s = p"

definition TrimPrefix :: "string \<Rightarrow> string \<Rightarrow> string" where
  "TrimPrefix s p = (if HasPrefix s p then drop (length p) s else s)"

fun Contains :: "string \<Rightarrow> string \<Rightarrow> bool" where
  "Contains [] sub = (sub = [])"
| "Contains (c # cs) sub = (HasPrefix (c # cs) sub \<or> Contains cs sub)"

text \<open>\<open>strings.Split\<close> for a separator of one byte (the only use is \<open>"."\<close>).\<close>

fun Split :: "string \<Rightarrow> char \<Rightarrow> string list" where
  "Split [] sep = [[]]"
| "Split (c # cs) sep =
     (if c = sep then [] # Split cs sep
      else (case Split cs sep of w # ws \<Rightarrow> (c # w) # ws | [] \<Rightarrow> [[c]]))"

subsection \<open>Package strconv\<close>

text \<open>
  \<open>strconv.Atoi\<close> on a platform whose \<open>int\<close> has 64 bits. It returns a value and an
  error; callers may ignore either. \<open>ParseUint\<close> accumulates in an unsigned 64-bit
  integer and stops with a range error as soon as the next step would overflow.
\<close>

datatype NumError = ErrSyntax | ErrRange

definition is_digit :: "char \<Rightarrow> bool" where
  "is_digit c \<longleftrightarrow> CHR ''0'' \<le> c \<and> c \<le> CHR ''9''"

definition digit_val :: "char \<Rightarrow> nat" where
  "digit_val c = of_char c - 48"

definition maxUint64 :: nat where
  "maxUint64 = 18446744073709551615"

definition maxInt64 :: int where
  "maxInt64 = 9223372036854775807"

fun ParseUint_loop :: "nat \<Rightarrow> string \<Rightarrow> nat \<times> NumError option" where
  "ParseUint_loop n [] = (n, None)"
| "ParseUint_loop n (c # cs) =
     (if \<not> is_digit c then (0, Some ErrSyntax)
      else if n \<ge> maxUint64 div 10 + 1 then (maxUint64, Some ErrRange)
      else if n * 10 + digit_val c > maxUint64 then (maxUint64, Some ErrRange)
      else ParseUint_loop (n * 10 + digit_val c) cs)"

definition ParseUint :: "string \<Rightarrow> nat \<times> NumError option" where
  "ParseUint s = (if s = [] then (0, Some ErrSyntax) else ParseUint_loop 0 s)"

definition ParseInt :: "string \<Rightarrow> int \<times> NumError option" where
  "ParseInt s =
     (if s = [] then (0, Some ErrSyntax)
      else
        let neg = (hd s = CHR ''-'');
            s' = (if hd s = CHR ''+'' \<or> hd s = CHR ''-'' then tl s else s)
        in (case ParseUint s' of
              (un, Some ErrSyntax) \<Rightarrow> (0, Some ErrSyntax)
            | (un, _) \<Rightarrow>
                if \<not> neg \<and> int un \<ge> maxInt64 + 1 then (maxInt64, Some ErrRange)
                else if neg \<and> int un > maxInt64 + 1 then (- (maxInt64 + 1), Some ErrRange)
                else (if neg then - int un else int un, None)))"

text \<open>
  \<open>Atoi\<close> has a fast path for short inputs that computes the same result as
  \<open>ParseInt(s, 10, 0)\<close>; the model is the latter.
\<close>

definition Atoi :: "string \<Rightarrow> int \<times> NumError option" where
  "Atoi s = ParseInt s"

subsection \<open>Package regexp\<close>

text \<open>
  The two patterns of the program are anchored at both ends (\<open>^...$\<close>, where \<open>$\<close> is
  the end of the text), so a match is a match of the whole string. Patterns are values
  of \<open>rexp\<close>; \<open>MatchString\<close> decides membership by derivatives.
\<close>

datatype rexp =
    Null
  | Eps
  | Cls "char \<Rightarrow> bool"
  | Seq rexp rexp
  | Alt rexp rexp
  | Star rexp

definition Lit :: "char \<Rightarrow> rexp" where
  "Lit c = Cls (\<lambda>x. x = c)"

definition Plus :: "rexp \<Rightarrow> rexp" where
  "Plus r = Seq r (Star r)"

definition Opt :: "rexp \<Rightarrow> rexp" where
  "Opt r = Alt r Eps"

fun nullable :: "rexp \<Rightarrow> bool" where
  "nullable Null = False"
| "nullable Eps = True"
| "nullable (Cls P) = False"
| "nullable (Seq r s) = (nullable r \<and> nullable s)"
| "nullable (Alt r s) = (nullable r \<or> nullable s)"
| "nullable (Star r) = True"

fun deriv :: "char \<Rightarrow> rexp \<Rightarrow> rexp" where
  "deriv c Null = Null"
| "deriv c Eps = Null"
| "deriv c (Cls P) = (if P c then Eps else Null)"
| "deriv c (Seq r s) =
     (if nullable r then Alt (Seq (deriv c r) s) (deriv c s) else Seq (deriv c r) s)"
| "deriv c (Alt r s) = Alt (deriv c r) (deriv c s)"
| "deriv c (Star r) = Seq (deriv c r) (Star r)"

fun MatchString :: "rexp \<Rightarrow> string \<Rightarrow> bool" where
  "MatchString r [] = nullable r"
| "MatchString r (c # cs) = MatchString (deriv c r) cs"

text \<open>The language of a pattern, as a set of strings.\<close>

inductive_set star :: "string set \<Rightarrow> string set" for A :: "string set" where
  star_empty: "[] \<in> star A"
| star_step: "u \<in> A \<Longrightarrow> v \<in> star A \<Longrightarrow> u @ v \<in> star A"

fun lang :: "rexp \<Rightarrow> string set" where
  "lang Null = {}"
| "lang Eps = {[]}"
| "lang (Cls P) = {[c] | c. P c}"
| "lang (Seq r s) = {u @ v | u v. u \<in> lang r \<and> v \<in> lang s}"
| "lang (Alt r s) = lang r \<union> lang s"
| "lang (Star r) = star (lang r)"

subsection \<open>Package sort\<close>

text \<open>
  \<open>sort.Slice\<close> and \<open>sort.Strings\<close> promise a sorted permutation and no stability.
  The model is the library's insertion sort (the routine it runs on slices of at most
  twelve elements): element \<open>i\<close> is swapped leftwards while it is less than its left
  neighbour. \<open>bubble\<close> is that inner loop; its list argument is the already sorted
  prefix in reverse order, so that its head is the left neighbour. On longer slices
  the library's quicksort also returns a sorted permutation and leaves a sorted slice
  as it is; there the model fixes the order of elements that compare equal, which the
  library leaves open.
\<close>

fun bubble :: "('a \<Rightarrow> 'a \<Rightarrow> bool) \<Rightarrow> 'a \<Rightarrow> 'a list \<Rightarrow> 'a list" where
  "bubble lt x [] = [x]"
| "bubble lt x (y # ys) = (if lt x y then y # bubble lt x ys else x # y # ys)"

definition sort_Slice :: "('a \<Rightarrow> 'a \<Rightarrow> bool) \<Rightarrow> 'a list \<Rightarrow> 'a list" where
  "sort_Slice lt xs = rev (foldl (\<lambda>acc x. bubble lt x acc) [] xs)"

definition sort_Strings :: "string list \<Rightarrow> string list" where
  "sort_Strings xs = sort_Slice (\<lambda>a b. a < b) xs"

text \<open>
  What a comparison function must satisfy for the result of sorting to be ordered: it
  is asymmetric and being not-less is transitive.
\<close>

definition strict_weak :: "('a \<Rightarrow> 'a \<Rightarrow> bool) \<Rightarrow> bool" where
  "strict_weak lt \<longleftrightarrow>
     (\<forall>a b. lt a b \<longrightarrow> \<not> lt b a) \<and> (\<forall>a b c. \<not> lt a b \<longrightarrow> \<not> lt b c \<longrightarrow> \<not> lt a c)"

section \<open>Package version\<close>

record Version =
  Original :: string
  Major :: int
  Minor :: int
  Patch :: int
  PreRelease :: string
  Build :: string

datatype CompareResult = Equal | Greater | Less

text \<open>
  The errors of the program, one constructor for each message; an error that wraps
  another (\<open>%w\<close>) carries it. Indexing a slice out of range panics.
\<close>

datatype error =
    ErrInvalidSemVer string
  | ErrParseCurrent error
  | ErrParseLatest error
  | ErrInvalidCalVerFormat
  | ErrInvalidCalVerNumber string
  | ErrUnsupportedScheme string
  | ErrNoValidSemVerTags
  | ErrNoValidCalVerTags
  | ErrNoTags
  | ErrNoTagsInRepository
  | ErrNoValidTagsAfterFiltering
  | ErrFindLatest error
  | PanicIndexOutOfRange

subsection \<open>ParseSemVer\<close>

definition is_idchar :: "char \<Rightarrow> bool" where
  "is_idchar c \<longleftrightarrow>
     is_digit c \<or> (CHR ''A'' \<le> c \<and> c \<le> CHR ''Z'') \<or> (CHR ''a'' \<le> c \<and> c \<le> CHR ''z'')
       \<or> c = CHR ''-''"

text \<open>\<^verbatim>\<open>[0-9A-Za-z-]+(?:\.[0-9A-Za-z-]+)*\<close>\<close>

definition identifiersRegex :: rexp where
  "identifiersRegex =
     Seq (Plus (Cls is_idchar)) (Star (Seq (Lit CHR ''.'') (Plus (Cls is_idchar))))"

text \<open>\<^verbatim>\<open>^(\d+)\.(\d+)\.(\d+)(?:-(identifiers))?(?:\+(identifiers))?$\<close>\<close>

definition semverRegex :: rexp where
  "semverRegex =
     Seq (Plus (Cls is_digit)) (Seq (Lit CHR ''.'')
    (Seq (Plus (Cls is_digit)) (Seq (Lit CHR ''.'')
    (Seq (Plus (Cls is_digit))
    (Seq (Opt (Seq (Lit CHR ''-'') identifiersRegex))
         (Opt (Seq (Lit CHR ''+'') identifiersRegex)))))))"

text \<open>
  \<open>FindStringSubmatch\<close> for \<open>semverRegex\<close>: nothing when the string does not match,
  otherwise the whole match and the five groups, an absent optional group being the
  empty string. The pattern leaves no choice where a group starts and ends: a numeric
  group is a maximal run of digits, group 4 runs from after the \<open>-\<close> that follows
  group 3 up to the first \<open>+\<close>, group 5 is what follows that \<open>+\<close>.
\<close>

definition FindStringSubmatch :: "string \<Rightarrow> string list option" where
  "FindStringSubmatch v =
     (if \<not> MatchString semverRegex v then None
      else
        let g1 = takeWhile is_digit v;
            r1 = drop (length g1 + 1) v;
            g2 = takeWhile is_digit r1;
            r2 = drop (length g2 + 1) r1;
            g3 = takeWhile is_digit r2;
            r3 = drop (length g3) r2;
            g4 = (if HasPrefix r3 ''-'' then takeWhile (\<lambda>c. c \<noteq> CHR ''+'') (tl r3) else []);
            r4 = (if HasPrefix r3 ''-'' then drop (length g4 + 1) r3 else r3);
            g5 = (if HasPrefix r4 ''+'' then tl r4 else [])
        in Some [v, g1, g2, g3, g4, g5])"

definition ParseSemVer :: "string \<Rightarrow> error + Version" where
  "ParseSemVer version =
     (let v = TrimPrefix version ''v'' in
      case FindStringSubmatch v of
        None \<Rightarrow> Inl (ErrInvalidSemVer version)
      | Some matches \<Rightarrow>
          Inr \<lparr>Original = version,
               Major = fst (Atoi (matches ! 1)),
               Minor = fst (Atoi (matches ! 2)),
               Patch = fst (Atoi (matches ! 3)),
               PreRelease = matches ! 4,
               Build = matches ! 5\<rparr>)"

subsection \<open>Comparators\<close>

definition Compare :: "Version \<Rightarrow> Version \<Rightarrow> CompareResult" where
  "Compare v other =
     (if Major v > Major other then Greater
      else if Major v < Major other then Less
      else if Minor v > Minor other then Greater
      else if Minor v < Minor other then Less
      else if Patch v > Patch other then Greater
      else if Patch v < Patch other then Less
      else if PreRelease v = [] \<and> PreRelease other \<noteq> [] then Greater
      else if PreRelease v \<noteq> [] \<and> PreRelease other = [] then Less
      else if PreRelease v \<noteq> [] \<and> PreRelease other \<noteq> [] then
        (if PreRelease v > PreRelease other then Greater
         else if PreRelease v < PreRelease other then Less
         else Equal)
      else Equal)"

definition CompareSemVer :: "string \<Rightarrow> string \<Rightarrow> error + CompareResult" where
  "CompareSemVer current latest =
     (case ParseSemVer current of
        Inl err \<Rightarrow> Inl (ErrParseCurrent err)
      | Inr currentVer \<Rightarrow>
          (case ParseSemVer latest of
             Inl err \<Rightarrow> Inl (ErrParseLatest err)
           | Inr latestVer \<Rightarrow> Inr (Compare currentVer latestVer)))"

text \<open>
  The loop of \<open>CompareCalVer\<close> over \<open>i = 0, 1, 2\<close>; both lists have three elements
  when it runs, so it visits the pairs of components in order.
\<close>

fun calverLoop :: "(string \<times> string) list \<Rightarrow> error + CompareResult" where
  "calverLoop [] = Inr Equal"
| "calverLoop ((c, l) # rest) =
     (case Atoi c of
        (_, Some _) \<Rightarrow> Inl (ErrInvalidCalVerNumber c)
      | (currentNum, None) \<Rightarrow>
          (case Atoi l of
             (_, Some _) \<Rightarrow> Inl (ErrInvalidCalVerNumber l)
           | (latestNum, None) \<Rightarrow>
               if currentNum > latestNum then Inr Greater
               else if currentNum < latestNum then Inr Less
               else calverLoop rest))"

definition CompareCalVer :: "string \<Rightarrow> string \<Rightarrow> error + CompareResult" where
  "CompareCalVer current latest =
     (let currentParts = Split current CHR ''.'';
          latestParts = Split latest CHR ''.''
      in if length currentParts \<noteq> 3 \<or> length latestParts \<noteq> 3 then Inl ErrInvalidCalVerFormat
         else calverLoop (zip currentParts latestParts))"

definition CompareString :: "string \<Rightarrow> string \<Rightarrow> error + CompareResult" where
  "CompareString current latest =
     (if current = latest then Inr Equal
      else if current > latest then Inr Greater
      else Inr Less)"

subsection \<open>Filters and sorting\<close>

definition FilterValidSemVer :: "string list \<Rightarrow> string list" where
  "FilterValidSemVer tags = filter (\<lambda>tag. case ParseSemVer tag of Inl _ \<Rightarrow> False | Inr _ \<Rightarrow> True) tags"

text \<open>\<^verbatim>\<open>^(\d{4})\.(\d{1,2})\.(\d+)$\<close>\<close>

definition calverRegex :: rexp where
  "calverRegex =
     Seq (Cls is_digit) (Seq (Cls is_digit) (Seq (Cls is_digit) (Seq (Cls is_digit)
    (Seq (Lit CHR ''.'')
    (Seq (Cls is_digit) (Seq (Opt (Cls is_digit))
    (Seq (Lit CHR ''.'')
         (Plus (Cls is_digit)))))))))"

definition FilterValidCalVer :: "string list \<Rightarrow> string list" where
  "FilterValidCalVer tags = filter (MatchString calverRegex) tags"

definition parseAll :: "string list \<Rightarrow> Version list" where
  "parseAll tags =
     concat (map (\<lambda>tag. case ParseSemVer tag of Inl _ \<Rightarrow> [] | Inr v \<Rightarrow> [v]) tags)"

definition SortSemVer :: "string list \<Rightarrow> string list" where
  "SortSemVer tags =
     map Original (sort_Slice (\<lambda>a b. Compare a b = Less) (parseAll tags))"

definition SortCalVer :: "string list \<Rightarrow> string list" where
  "SortCalVer tags = sort_Strings (FilterValidCalVer tags)"

text \<open>\<open>s[len(s)-1]\<close>, which panics on an empty slice.\<close>

definition lastOf :: "'a list \<Rightarrow> error + 'a" where
  "lastOf xs = (if xs = [] then Inl PanicIndexOutOfRange else Inr (last xs))"

text \<open>
  \<open>GetLatestVersion\<close> of package version. For the scheme \<open>string\<close> the source sorts
  the caller's slice in place; only the returned value is modelled.
\<close>

definition version_GetLatestVersion :: "string list \<Rightarrow> string \<Rightarrow> error + string" where
  "version_GetLatestVersion tags scheme =
     (if scheme = ''semver'' then
        (let validTags = FilterValidSemVer tags in
         if length validTags = 0 then Inl ErrNoValidSemVerTags
         else lastOf (SortSemVer validTags))
      else if scheme = ''calver'' then
        (let validTags = FilterValidCalVer tags in
         if length validTags = 0 then Inl ErrNoValidCalVerTags
         else lastOf (SortCalVer validTags))
      else if scheme = ''string'' then
        (if length tags = 0 then Inl ErrNoTags else lastOf (sort_Strings tags))
      else Inl (ErrUnsupportedScheme scheme))"

section \<open>Package scanner\<close>

record Versioning =
  Scheme :: string
  IgnorePrefix :: string
  IgnoreSuffixes :: "string list"

definition removePrefix :: "string list \<Rightarrow> string \<Rightarrow> string list" where
  "removePrefix tags pfx =
     concat (map (\<lambda>tag. if HasPrefix tag pfx then [TrimPrefix tag pfx] else []) tags)"

definition filterSuffixes :: "string list \<Rightarrow> string list \<Rightarrow> string list" where
  "filterSuffixes tags ignoreSuffixes =
     filter (\<lambda>tag. \<not> list_ex (\<lambda>suffix. Contains tag suffix) ignoreSuffixes) tags"

definition getValidTags :: "string list \<Rightarrow> string \<Rightarrow> string list" where
  "getValidTags tags scheme =
     (if scheme = ''semver'' then FilterValidSemVer tags
      else if scheme = ''calver'' then FilterValidCalVer tags
      else if scheme = ''string'' then tags
      else tags)"

definition findLatestVersionFromValidTags :: "string list \<Rightarrow> string \<Rightarrow> error + string" where
  "findLatestVersionFromValidTags validTags scheme =
     (if length validTags = 0 then Inl ErrNoValidTagsAfterFiltering
      else if scheme = ''semver'' then lastOf (SortSemVer validTags)
      else if scheme = ''calver'' then lastOf (SortCalVer validTags)
      else if scheme = ''string'' then lastOf (sort_Strings validTags)
      else Inl (ErrUnsupportedScheme scheme))"

text \<open>
  The tag selection inside \<open>GitScanner.GetLatestVersion\<close>: validity filter, suffix
  filter, then the maximum; an error of the last step is wrapped.
\<close>

definition selectLatest :: "string list \<Rightarrow> string \<Rightarrow> string list \<Rightarrow> error + string" where
  "selectLatest tags scheme ignoreSuffixes =
     (let validTags = getValidTags tags scheme;
          validTags = (if length ignoreSuffixes > 0 then filterSuffixes validTags ignoreSuffixes
                       else validTags)
      in case findLatestVersionFromValidTags validTags scheme of
           Inl err \<Rightarrow> Inl (ErrFindLatest err)
         | Inr latestTag \<Rightarrow> Inr latestTag)"

text \<open>
  \<open>GitScanner.GetLatestVersion\<close> from the parsed tag list on (what precedes it runs
  \<open>git ls-remote\<close>). A nil \<open>Versioning\<close> pointer is \<open>None\<close>.
\<close>

definition GitScanner_GetLatestVersion :: "string list \<Rightarrow> Versioning option \<Rightarrow> error + string" where
  "GitScanner_GetLatestVersion tags0 versioning =
     (if length tags0 = 0 then Inl ErrNoTagsInRepository
      else
        let hasPrefix = (case versioning of None \<Rightarrow> False | Some vg \<Rightarrow> IgnorePrefix vg \<noteq> []);
            tags = (if hasPrefix then removePrefix tags0 (IgnorePrefix (the versioning)) else tags0);
            scheme = (case versioning of
                        None \<Rightarrow> ''semver''
                      | Some vg \<Rightarrow> if Scheme vg \<noteq> [] then Scheme vg else ''semver'');
            ignoreSuffixes = (case versioning of None \<Rightarrow> [] | Some vg \<Rightarrow> IgnoreSuffixes vg)
        in case selectLatest tags scheme ignoreSuffixes of
             Inl err \<Rightarrow> Inl err
           | Inr latestTag \<Rightarrow>
               if hasPrefix then Inr (IgnorePrefix (the versioning) @ latestTag)
               else Inr latestTag)"

section \<open>Package cmd\<close>

definition compareVersions :: "string \<Rightarrow> string \<Rightarrow> Versioning option \<Rightarrow> error + bool" where
  "compareVersions current latest versioning =
     (let hasPrefix = (case versioning of None \<Rightarrow> False | Some vg \<Rightarrow> IgnorePrefix vg \<noteq> []);
          currentCmp = (if hasPrefix then TrimPrefix current (IgnorePrefix (the versioning))
                        else current);
          latestCmp = (if hasPrefix then TrimPrefix latest (IgnorePrefix (the versioning))
                       else latest);
          scheme = (case versioning of
                      None \<Rightarrow> ''semver''
                    | Some vg \<Rightarrow> if Scheme vg \<noteq> [] then Scheme vg else ''semver'')
      in if scheme = ''semver'' then
           (case CompareSemVer currentCmp latestCmp of
              Inl err \<Rightarrow> Inl err | Inr result \<Rightarrow> Inr (result = Less))
         else if scheme = ''calver'' then
           (case CompareCalVer currentCmp latestCmp of
              Inl err \<Rightarrow> Inl err | Inr result \<Rightarrow> Inr (result = Less))
         else if scheme = ''string'' then
           (case CompareString currentCmp latestCmp of
              Inl err \<Rightarrow> Inl err | Inr result \<Rightarrow> Inr (result = Less))
         else Inl (ErrUnsupportedScheme scheme))"

section \<open>Notions of the specification\<close>

text \<open>
  A component that can be read as a non-negative integer: one or more digits. A
  calendar version in the words of the specification: exactly three components
  separated by dots, each such a number.
\<close>

definition numeric :: "string \<Rightarrow> bool" where
  "numeric s \<longleftrightarrow> s \<noteq> [] \<and> list_all is_digit s"

definition calverSpecValid :: "string \<Rightarrow> bool" where
  "calverSpecValid tag =
     (case Split tag CHR ''.'' of
        [a, b, c] \<Rightarrow> numeric a \<and> numeric b \<and> numeric c
      | _ \<Rightarrow> False)"

text \<open>
  The grammar of semantic versions in the words of the specification:
  \<open>MAJOR.MINOR.PATCH\<close>, then optionally \<open>-PRERELEASE\<close>, then optionally \<open>+BUILD\<close>,
  where the three numbers are one or more digits and the two optional parts are
  sequences of non-empty identifiers over letters, digits and hyphen, separated by
  dots. \<open>decimal\<close> is the number that a string of digits denotes.
\<close>

definition identifiers :: "string \<Rightarrow> bool" where
  "identifiers s \<longleftrightarrow> list_all (\<lambda>p. p \<noteq> [] \<and> list_all is_idchar p) (Split s CHR ''.'')"

definition decimal :: "string \<Rightarrow> nat" where
  "decimal s = foldl (\<lambda>n c. n * 10 + digit_val c) 0 s"

fun optPart :: "char \<Rightarrow> string option \<Rightarrow> string" where
  "optPart c None = []"
| "optPart c (Some p) = c # p"

definition semverText :: "string \<Rightarrow> string \<Rightarrow> string \<Rightarrow> string option \<Rightarrow> string option \<Rightarrow> string" where
  "semverText ma mi pa pre build =
     ma @ CHR ''.'' # mi @ CHR ''.'' # pa @ optPart CHR ''-'' pre @ optPart CHR ''+'' build"

definition semverGrammar ::
  "string \<Rightarrow> string \<Rightarrow> string \<Rightarrow> string \<Rightarrow> string option \<Rightarrow> string option \<Rightarrow> bool" where
  "semverGrammar v ma mi pa pre build \<longleftrightarrow>
     v = semverText ma mi pa pre build \<and> numeric ma \<and> numeric mi \<and> numeric pa \<and>
     (case pre of None \<Rightarrow> True | Some p \<Rightarrow> identifiers p) \<and>
     (case build of None \<Rightarrow> True | Some b \<Rightarrow> identifiers b)"

text \<open>
  The tags that are left after the validity filter and the suffix filter, in the words
  of the specification: valid for the scheme, and containing none of the listed strings.
\<close>

definition survivors :: "string list \<Rightarrow> string \<Rightarrow> string list \<Rightarrow> string list" where
  "survivors tags scheme ignoreSuffixes =
     filter (\<lambda>tag. \<forall>suffix \<in> set ignoreSuffixes. \<not> Contains tag suffix) (getValidTags tags scheme)"

text \<open>
  The scheme in force (\<open>semver\<close> when none is set) and the string that takes part in
  the comparison after the prefix has been stripped.
\<close>

definition effectiveScheme :: "Versioning option \<Rightarrow> string" where
  "effectiveScheme versioning =
     (case versioning of
        None \<Rightarrow> ''semver''
      | Some vg \<Rightarrow> if Scheme vg = [] then ''semver'' else Scheme vg)"

definition stripped :: "Versioning option \<Rightarrow> string \<Rightarrow> string" where
  "stripped versioning s =
     (case versioning of None \<Rightarrow> s | Some vg \<Rightarrow> TrimPrefix s (IgnorePrefix vg))"

text \<open>What the specification calls the inverse of a verdict.\<close>

fun invert :: "CompareResult \<Rightarrow> CompareResult" where
  "invert Less = Greater"
| "invert Greater = Less"
| "invert Equal = Equal"

section \<open>Regular expressions: the matcher decides the language\<close>

lemma nullable_lang: "nullable r \<longleftrightarrow> [] \<in> lang r"
  by (induction r) (auto intro: star.intros)

lemma star_Cons:
  "c # w \<in> star A \<longleftrightarrow> (\<exists>u v. w = u @ v \<and> c # u \<in> A \<and> v \<in> star A)"
proof
  assume "c # w \<in> star A"
  then show "\<exists>u v. w = u @ v \<and> c # u \<in> A \<and> v \<in> star A"
  proof (induction "c # w" arbitrary: w rule: star.induct)
    case (star_step u v)
    show ?case
    proof (cases u)
      case Nil
      with star_step show ?thesis by simp
    next
      case (Cons a u')
      with star_step show ?thesis by auto
    qed
  qed
next
  assume "\<exists>u v. w = u @ v \<and> c # u \<in> A \<and> v \<in> star A"
  then obtain u v where "w = u @ v" "c # u \<in> A" "v \<in> star A" by blast
  then show "c # w \<in> star A"
    using star_step [of "c # u" A v] by simp
qed

lemma lang_deriv: "lang (deriv c r) = {w. c # w \<in> lang r}"
proof (induction r)
  case (Seq r s)
  show ?case
  proof (rule set_eqI)
    fix w
    have "c # w \<in> lang (Seq r s) \<longleftrightarrow>
        (\<exists>u v. c # w = u @ v \<and> u \<in> lang r \<and> v \<in> lang s)" by auto
    also have "\<dots> \<longleftrightarrow> ([] \<in> lang r \<and> c # w \<in> lang s) \<or>
        (\<exists>u' v. w = u' @ v \<and> c # u' \<in> lang r \<and> v \<in> lang s)"
      by (auto simp: Cons_eq_append_conv)
    finally show "w \<in> lang (deriv c (Seq r s)) \<longleftrightarrow> w \<in> {w. c # w \<in> lang (Seq r s)}"
      using Seq by (auto simp: nullable_lang)
  qed
next
  case (Star r)
  then show ?case by (auto simp: star_Cons)
qed auto

lemma MatchString_lang: "MatchString r s \<longleftrightarrow> s \<in> lang r"
  by (induction s arbitrary: r) (auto simp: nullable_lang lang_deriv)

section \<open>The semantic-version comparator\<close>

lemma Compare_same: "Compare a a = Equal"
  by (simp add: Compare_def)

lemma Compare_swap: "Compare a b = invert (Compare b a)"
  by (auto simp: Compare_def)

lemma Compare_Less_asym: "Compare a b = Less \<Longrightarrow> Compare b a \<noteq> Less"
  using Compare_swap [of a b] by (cases "Compare b a") auto

lemma Compare_not_Less_trans:
  "Compare a b \<noteq> Less \<Longrightarrow> Compare b c \<noteq> Less \<Longrightarrow> Compare a c \<noteq> Less"
  unfolding Compare_def
  by (simp split: if_splits) (auto dest: less_trans)

text \<open>
  C2. \<open>Compare\<close> decides on the first of major, minor and patch that differs, as
  numbers. With equal triples a version without pre-release is \<open>Greater\<close> than one
  with a pre-release, and two non-empty pre-release strings are compared whole, in byte
  order. The build metadata plays no part, and the result is \<open>Equal\<close> exactly when
  the triples and the pre-release strings are equal.
\<close>

theorem Compare_order:
  "(Major a < Major b \<longrightarrow> Compare a b = Less) \<and>
   (Major a > Major b \<longrightarrow> Compare a b = Greater) \<and>
   (Major a = Major b \<and> Minor a < Minor b \<longrightarrow> Compare a b = Less) \<and>
   (Major a = Major b \<and> Minor a > Minor b \<longrightarrow> Compare a b = Greater) \<and>
   (Major a = Major b \<and> Minor a = Minor b \<and> Patch a < Patch b \<longrightarrow> Compare a b = Less) \<and>
   (Major a = Major b \<and> Minor a = Minor b \<and> Patch a > Patch b \<longrightarrow> Compare a b = Greater) \<and>
   (Major a = Major b \<and> Minor a = Minor b \<and> Patch a = Patch b \<longrightarrow>
      (PreRelease a = [] \<and> PreRelease b \<noteq> [] \<longrightarrow> Compare a b = Greater) \<and>
      (PreRelease a \<noteq> [] \<and> PreRelease b = [] \<longrightarrow> Compare a b = Less) \<and>
      (PreRelease a \<noteq> [] \<and> PreRelease b \<noteq> [] \<longrightarrow>
         Compare a b = (if PreRelease a > PreRelease b then Greater
                        else if PreRelease a < PreRelease b then Less else Equal))) \<and>
   Compare (a\<lparr>Build := x\<rparr>) (b\<lparr>Build := y\<rparr>) = Compare a b \<and>
   (Compare a b = Equal \<longleftrightarrow>
      Major a = Major b \<and> Minor a = Minor b \<and> Patch a = Patch b \<and> PreRelease a = PreRelease b)"
  by (auto simp: Compare_def)

theorem Compare_order_witness:
  "Compare \<lparr>Original = ''1.0.0-rc.10'', Major = 1, Minor = 0, Patch = 0, PreRelease = ''rc.10'', Build = []\<rparr>
     \<lparr>Original = ''1.0.0-rc.9'', Major = 1, Minor = 0, Patch = 0, PreRelease = ''rc.9'', Build = []\<rparr> = Less \<and>
   Compare \<lparr>Original = ''1.0.0'', Major = 1, Minor = 0, Patch = 0, PreRelease = [], Build = []\<rparr>
     \<lparr>Original = ''1.0.0-rc.1'', Major = 1, Minor = 0, Patch = 0, PreRelease = ''rc.1'', Build = []\<rparr> = Greater \<and>
   Compare \<lparr>Original = ''1.9.0'', Major = 1, Minor = 9, Patch = 0, PreRelease = [], Build = []\<rparr>
     \<lparr>Original = ''1.10.0'', Major = 1, Minor = 10, Patch = 0, PreRelease = [], Build = []\<rparr> = Less"
  using Compare_order [of "\<lparr>Original = ''1.0.0-rc.10'', Major = 1, Minor = 0, Patch = 0, PreRelease = ''rc.10'', Build = []\<rparr>"
      "\<lparr>Original = ''1.0.0-rc.9'', Major = 1, Minor = 0, Patch = 0, PreRelease = ''rc.9'', Build = []\<rparr>"]
    Compare_order [of "\<lparr>Original = ''1.0.0'', Major = 1, Minor = 0, Patch = 0, PreRelease = [], Build = []\<rparr>"
      "\<lparr>Original = ''1.0.0-rc.1'', Major = 1, Minor = 0, Patch = 0, PreRelease = ''rc.1'', Build = []\<rparr>"]
    Compare_order [of "\<lparr>Original = ''1.9.0'', Major = 1, Minor = 9, Patch = 0, PreRelease = [], Build = []\<rparr>"
      "\<lparr>Original = ''1.10.0'', Major = 1, Minor = 10, Patch = 0, PreRelease = [], Build = []\<rparr>"]
  by simp

text \<open>
  C8. \<open>Compare\<close> is reflexive, and swapping the arguments inverts the verdict:
  \<open>Less\<close> and \<open>Greater\<close> change places, \<open>Equal\<close> stays.
\<close>

theorem Compare_reflexive_inverse:
  "Compare a a = Equal \<and> Compare a b = invert (Compare b a)"
  using Compare_same Compare_swap by blast

section \<open>Sorting\<close>

lemma mset_bubble: "mset (bubble lt x ys) = add_mset x (mset ys)"
  by (induction ys) auto

lemma mset_foldl_bubble:
  "mset (foldl (\<lambda>acc x. bubble lt x acc) acc xs) = mset acc + mset xs"
  by (induction xs arbitrary: acc) (auto simp: mset_bubble)

lemma mset_sort_Slice: "mset (sort_Slice lt xs) = mset xs"
  by (simp add: sort_Slice_def mset_foldl_bubble)

lemma set_sort_Slice: "set (sort_Slice lt xs) = set xs"
  using mset_sort_Slice [of lt xs] by (metis set_mset_mset)

lemma length_sort_Slice: "length (sort_Slice lt xs) = length xs"
  using mset_sort_Slice [of lt xs] by (metis size_mset)

lemma sort_Slice_Nil: "sort_Slice lt xs = [] \<longleftrightarrow> xs = []"
  using length_sort_Slice [of lt xs] by auto

lemma set_bubble: "set (bubble lt x ys) = insert x (set ys)"
  using mset_bubble [of lt x ys] by (metis set_mset_add_mset_insert set_mset_mset)

lemma strict_weakD1: "strict_weak lt \<Longrightarrow> lt a b \<Longrightarrow> \<not> lt b a"
  unfolding strict_weak_def by blast

lemma strict_weakD2: "strict_weak lt \<Longrightarrow> \<not> lt a b \<Longrightarrow> \<not> lt b c \<Longrightarrow> \<not> lt a c"
  unfolding strict_weak_def by blast

lemma sorted_bubble:
  assumes sw: "strict_weak lt"
  shows "sorted_wrt (\<lambda>a b. \<not> lt a b) ys \<Longrightarrow> sorted_wrt (\<lambda>a b. \<not> lt a b) (bubble lt x ys)"
proof (induction ys)
  case Nil
  show ?case by simp
next
  case (Cons y ys)
  show ?case
  proof (cases "lt x y")
    case True
    then have "\<not> lt y x" by (rule strict_weakD1 [OF sw])
    with Cons True show ?thesis by (simp add: set_bubble)
  next
    case False
    have "\<not> lt x z" if "z \<in> set ys" for z
    proof -
      from that Cons.prems have "\<not> lt y z" by simp
      with False show ?thesis by (rule strict_weakD2 [OF sw])
    qed
    with Cons.prems False show ?thesis by simp
  qed
qed

lemma sorted_foldl_bubble:
  assumes sw: "strict_weak lt"
  shows "sorted_wrt (\<lambda>a b. \<not> lt a b) acc \<Longrightarrow>
    sorted_wrt (\<lambda>a b. \<not> lt a b) (foldl (\<lambda>acc x. bubble lt x acc) acc xs)"
proof (induction xs arbitrary: acc)
  case Nil
  then show ?case by simp
next
  case (Cons x xs)
  from Cons.prems have "sorted_wrt (\<lambda>a b. \<not> lt a b) (bubble lt x acc)"
    by (rule sorted_bubble [OF sw])
  then show ?case using Cons.IH by simp
qed

lemma sorted_sort_Slice:
  assumes sw: "strict_weak lt"
  shows "sorted_wrt (\<lambda>a b. \<not> lt b a) (sort_Slice lt xs)"
proof -
  have "sorted_wrt (\<lambda>a b. \<not> lt a b) (foldl (\<lambda>acc x. bubble lt x acc) [] xs)"
    by (rule sorted_foldl_bubble [OF sw]) simp
  then show ?thesis by (simp add: sort_Slice_def sorted_wrt_rev)
qed




lemma strict_weak_string: "strict_weak (\<lambda>a b :: string. a < b)"
  unfolding strict_weak_def by (meson less_asym not_less less_le_trans le_less_trans order_trans)


lemma set_sort_Strings: "set (sort_Strings xs) = set xs"
  by (simp add: sort_Strings_def set_sort_Slice)

lemma strict_weak_Compare: "strict_weak (\<lambda>a b. Compare a b = Less)"
  unfolding strict_weak_def using Compare_Less_asym Compare_not_Less_trans by blast

lemma ParseSemVer_Original: "ParseSemVer tag = Inr v \<Longrightarrow> Original v = tag"
  by (auto simp: ParseSemVer_def Let_def split: option.splits)

lemma map_Original_parseAll: "map Original (parseAll tags) = FilterValidSemVer tags"
  by (induction tags)
     (auto simp: parseAll_def FilterValidSemVer_def ParseSemVer_Original split: sum.splits)

lemma parseAll_reparse: "v \<in> set (parseAll tags) \<Longrightarrow> ParseSemVer (Original v) = Inr v"
  by (induction tags) (auto simp: parseAll_def ParseSemVer_Original split: sum.splits)



lemma set_SortSemVer: "set (SortSemVer tags) = set (FilterValidSemVer tags)"
proof -
  have "set (SortSemVer tags) = Original ` set (parseAll tags)"
    by (simp add: SortSemVer_def set_sort_Slice)
  also have "\<dots> = set (map Original (parseAll tags))" by simp
  finally show ?thesis by (simp add: map_Original_parseAll)
qed

lemma FilterValidCalVer_idem: "FilterValidCalVer (FilterValidCalVer tags) = FilterValidCalVer tags"
  by (simp add: FilterValidCalVer_def)

lemma FilterValidCalVer_all:
  "\<forall>t \<in> set ts. MatchString calverRegex t \<Longrightarrow> FilterValidCalVer ts = ts"
  by (simp add: FilterValidCalVer_def)

lemma set_SortCalVer: "set (SortCalVer tags) = set (FilterValidCalVer tags)"
  by (simp add: SortCalVer_def set_sort_Strings)



section \<open>Selecting the latest tag\<close>

text \<open>Simplification sets that evaluate the model on concrete strings.\<close>

lemmas atoi_eval = Atoi_def ParseInt_def ParseUint_def is_digit_def digit_val_def maxUint64_def
  maxInt64_def

lemmas rx_eval = semverRegex_def identifiersRegex_def calverRegex_def Plus_def Opt_def Lit_def
  is_idchar_def

lemmas str_eval = HasPrefix_def TrimPrefix_def

lemmas sel_eval = selectLatest_def getValidTags_def filterSuffixes_def
  findLatestVersionFromValidTags_def FilterValidSemVer_def FilterValidCalVer_def SortSemVer_def
  SortCalVer_def parseAll_def sort_Slice_def sort_Strings_def lastOf_def Compare_def

lemmas cmp_eval = compareVersions_def CompareSemVer_def CompareCalVer_def CompareString_def
  ParseSemVer_def FindStringSubmatch_def Compare_def

lemma HasPrefix_prefix: "HasPrefix s p \<longleftrightarrow> prefix p s"
  unfolding HasPrefix_def prefix_def by (metis append_eq_conv_conj append_take_drop_id)

lemma Contains_sublist: "Contains t s \<longleftrightarrow> sublist s t"
  by (induction t) (auto simp: sublist_Cons_right HasPrefix_prefix)

lemma filterSuffixes_survivors:
  "(if length sfx > 0 then filterSuffixes (getValidTags tags scheme) sfx else getValidTags tags scheme)
     = survivors tags scheme sfx"
  by (cases sfx) (auto simp: filterSuffixes_def survivors_def list_ex_iff)

lemma selectLatest_survivors:
  "selectLatest tags scheme sfx =
     (case findLatestVersionFromValidTags (survivors tags scheme sfx) scheme of
        Inl err \<Rightarrow> Inl (ErrFindLatest err) | Inr latestTag \<Rightarrow> Inr latestTag)"
  unfolding selectLatest_def Let_def filterSuffixes_survivors ..

lemma lastOf_Inr: "xs \<noteq> [] \<Longrightarrow> lastOf xs = Inr (last xs)"
  by (simp add: lastOf_def)

lemma lastOf_in_set: "lastOf xs = Inr t \<Longrightarrow> t \<in> set xs"
  by (auto simp: lastOf_def split: if_splits)

lemma FilterValidSemVer_all:
  "\<forall>t \<in> set ts. (case ParseSemVer t of Inl _ \<Rightarrow> False | Inr _ \<Rightarrow> True) \<Longrightarrow> FilterValidSemVer ts = ts"
  by (simp add: FilterValidSemVer_def)

lemma set_getValidTags: "set (getValidTags tags scheme) \<subseteq> set tags"
  by (auto simp: getValidTags_def FilterValidSemVer_def FilterValidCalVer_def)

lemma set_survivors: "set (survivors tags scheme sfx) \<subseteq> set tags"
  using set_getValidTags [of tags scheme] by (auto simp: survivors_def)

lemma survivors_valid_semver:
  "t \<in> set (survivors tags ''semver'' sfx) \<Longrightarrow> (case ParseSemVer t of Inl _ \<Rightarrow> False | Inr _ \<Rightarrow> True)"
  by (simp add: survivors_def getValidTags_def FilterValidSemVer_def)

lemma survivors_valid_calver:
  "t \<in> set (survivors tags ''calver'' sfx) \<Longrightarrow> MatchString calverRegex t"
  by (simp add: survivors_def getValidTags_def FilterValidCalVer_def)

lemma set_sort_survivors_semver:
  "set (SortSemVer (survivors tags ''semver'' sfx)) = set (survivors tags ''semver'' sfx)"
  using FilterValidSemVer_all [of "survivors tags ''semver'' sfx"] survivors_valid_semver
  by (simp add: set_SortSemVer)

lemma set_sort_survivors_calver:
  "set (SortCalVer (survivors tags ''calver'' sfx)) = set (survivors tags ''calver'' sfx)"
  using FilterValidCalVer_all [of "survivors tags ''calver'' sfx"] survivors_valid_calver
  by (simp add: set_SortCalVer)

lemma findLatest_in_set:
  "findLatestVersionFromValidTags vt scheme = Inr t \<Longrightarrow> t \<in> set vt"
  by (auto simp: findLatestVersionFromValidTags_def set_SortSemVer set_SortCalVer set_sort_Strings
        FilterValidSemVer_def FilterValidCalVer_def
      split: if_splits dest!: lastOf_in_set)

lemma selectLatest_in_survivors:
  "selectLatest tags scheme sfx = Inr t \<Longrightarrow> t \<in> set (survivors tags scheme sfx)"
  by (auto simp: selectLatest_survivors split: sum.splits dest: findLatest_in_set)

lemma findLatest_survivors_semver:
  "survivors tags ''semver'' sfx \<noteq> [] \<Longrightarrow>
   findLatestVersionFromValidTags (survivors tags ''semver'' sfx) ''semver''
     = Inr (last (SortSemVer (survivors tags ''semver'' sfx)))"
proof -
  assume ne: "survivors tags ''semver'' sfx \<noteq> []"
  then have "set (SortSemVer (survivors tags ''semver'' sfx)) \<noteq> {}"
    by (simp add: set_sort_survivors_semver)
  then have "SortSemVer (survivors tags ''semver'' sfx) \<noteq> []" by auto
  with ne show ?thesis by (simp add: findLatestVersionFromValidTags_def lastOf_Inr)
qed

lemma findLatest_survivors_calver:
  "survivors tags ''calver'' sfx \<noteq> [] \<Longrightarrow>
   findLatestVersionFromValidTags (survivors tags ''calver'' sfx) ''calver''
     = Inr (last (SortCalVer (survivors tags ''calver'' sfx)))"
proof -
  assume ne: "survivors tags ''calver'' sfx \<noteq> []"
  then have "set (SortCalVer (survivors tags ''calver'' sfx)) \<noteq> {}"
    by (simp add: set_sort_survivors_calver)
  then have "SortCalVer (survivors tags ''calver'' sfx) \<noteq> []" by auto
  with ne show ?thesis by (simp add: findLatestVersionFromValidTags_def lastOf_Inr)
qed

lemma selectLatest_succeeds:
  assumes "scheme = ''semver'' \<or> scheme = ''calver''" and "survivors tags scheme sfx \<noteq> []"
  shows "\<exists>t \<in> set (survivors tags scheme sfx). selectLatest tags scheme sfx = Inr t"
proof -
  obtain t where t: "findLatestVersionFromValidTags (survivors tags scheme sfx) scheme = Inr t"
    using assms findLatest_survivors_semver findLatest_survivors_calver by blast
  then have "selectLatest tags scheme sfx = Inr t" by (simp add: selectLatest_survivors)
  then show ?thesis using selectLatest_in_survivors by blast
qed

lemma selectLatest_empty:
  "survivors tags scheme sfx = [] \<Longrightarrow>
     selectLatest tags scheme sfx = Inl (ErrFindLatest ErrNoValidTagsAfterFiltering)"
  by (simp add: selectLatest_survivors findLatestVersionFromValidTags_def)

lemma version_GetLatestVersion_valid:
  assumes "scheme = ''semver'' \<or> scheme = ''calver''"
  shows "(getValidTags tags scheme = [] \<longrightarrow>
            version_GetLatestVersion tags scheme =
              Inl (if scheme = ''semver'' then ErrNoValidSemVerTags else ErrNoValidCalVerTags)) \<and>
         (getValidTags tags scheme \<noteq> [] \<longrightarrow>
            (\<exists>t \<in> set (getValidTags tags scheme). version_GetLatestVersion tags scheme = Inr t))"
proof -
  have sv: "survivors tags scheme [] = getValidTags tags scheme" by (simp add: survivors_def)
  have a: "getValidTags tags ''semver'' \<noteq> [] \<Longrightarrow>
      version_GetLatestVersion tags ''semver'' = Inr (last (SortSemVer (getValidTags tags ''semver'')))"
    using findLatest_survivors_semver [of tags "[]"]
    by (simp add: survivors_def version_GetLatestVersion_def findLatestVersionFromValidTags_def
        getValidTags_def Let_def)
  have b: "getValidTags tags ''calver'' \<noteq> [] \<Longrightarrow>
      version_GetLatestVersion tags ''calver'' = Inr (last (SortCalVer (getValidTags tags ''calver'')))"
    using findLatest_survivors_calver [of tags "[]"]
    by (simp add: survivors_def version_GetLatestVersion_def findLatestVersionFromValidTags_def
        getValidTags_def Let_def)
  have c: "getValidTags tags scheme \<noteq> [] \<Longrightarrow>
      findLatestVersionFromValidTags (getValidTags tags scheme) scheme = version_GetLatestVersion tags scheme"
    using assms a b findLatest_survivors_semver [of tags "[]"] findLatest_survivors_calver [of tags "[]"]
    by (auto simp: survivors_def)
  show ?thesis
  proof (cases "getValidTags tags scheme = []")
    case True
    with assms show ?thesis
      by (auto simp: version_GetLatestVersion_def getValidTags_def)
  next
    case False
    from selectLatest_succeeds [OF assms, of tags "[]"] False
    obtain t where t: "t \<in> set (getValidTags tags scheme)"
      "findLatestVersionFromValidTags (getValidTags tags scheme) scheme = Inr t"
      by (auto simp: sv selectLatest_survivors split: sum.splits)
    from t(2) c [OF False] have "version_GetLatestVersion tags scheme = Inr t" by simp
    with t(1) False show ?thesis by blast
  qed
qed

text \<open>
  C6. For the schemes \<open>semver\<close> and \<open>calver\<close>, tags that are not valid are dropped
  and the selection succeeds with one of the surviving tags whenever a tag survives the
  validity filter and the suffix filter; it fails with the no-valid-tags error exactly
  when no tag survives. The same holds for \<open>GetLatestVersion\<close> of package version,
  which has no suffix filter.
\<close>

theorem selectLatest_no_valid_tags:
  assumes "scheme = ''semver'' \<or> scheme = ''calver''"
  shows "(selectLatest tags scheme sfx = Inl (ErrFindLatest ErrNoValidTagsAfterFiltering)
            \<longleftrightarrow> survivors tags scheme sfx = []) \<and>
         (survivors tags scheme sfx \<noteq> [] \<longrightarrow>
            (\<exists>t \<in> set (survivors tags scheme sfx). selectLatest tags scheme sfx = Inr t)) \<and>
         (getValidTags tags scheme = [] \<longrightarrow>
            version_GetLatestVersion tags scheme =
              Inl (if scheme = ''semver'' then ErrNoValidSemVerTags else ErrNoValidCalVerTags)) \<and>
         (getValidTags tags scheme \<noteq> [] \<longrightarrow>
            (\<exists>t \<in> set (getValidTags tags scheme). version_GetLatestVersion tags scheme = Inr t))"
proof (cases "survivors tags scheme sfx = []")
  case True
  then show ?thesis
    using version_GetLatestVersion_valid [OF assms, of tags] by (simp add: selectLatest_empty)
next
  case False
  with assms selectLatest_succeeds [of scheme tags sfx]
    version_GetLatestVersion_valid [OF assms, of tags]
  show ?thesis by auto
qed

theorem selectLatest_no_valid_tags_witness:
  "(''semver'' = ''semver'' \<or> ''semver'' = ''calver'') \<and>
   survivors [''not-a-version'', ''1.2.0''] ''semver'' [] = [''1.2.0''] \<and>
   selectLatest [''not-a-version'', ''1.2.0''] ''semver'' [] = Inr ''1.2.0'' \<and>
   survivors [''not-a-version''] ''semver'' [] = [] \<and>
   selectLatest [''not-a-version''] ''semver'' [] = Inl (ErrFindLatest ErrNoValidTagsAfterFiltering)"
proof -
  have h: "''semver'' = ''semver'' \<or> ''semver'' = ''calver''" by simp
  have a: "survivors [''not-a-version'', ''1.2.0''] ''semver'' [] = [''1.2.0'']"
    by (simp add: survivors_def sel_eval ParseSemVer_def FindStringSubmatch_def atoi_eval rx_eval
        str_eval Let_def)
  have b: "survivors [''not-a-version''] ''semver'' [] = []"
    by (simp add: survivors_def sel_eval ParseSemVer_def FindStringSubmatch_def atoi_eval rx_eval
        str_eval Let_def)
  note T1 = selectLatest_no_valid_tags [OF h, of "[''not-a-version'', ''1.2.0'']" "[]"]
  note T2 = selectLatest_no_valid_tags [OF h, of "[''not-a-version'']" "[]"]
  from a have "survivors [''not-a-version'', ''1.2.0''] ''semver'' [] \<noteq> []" by simp
  with T1 obtain t where "t \<in> set (survivors [''not-a-version'', ''1.2.0''] ''semver'' [])"
    and "selectLatest [''not-a-version'', ''1.2.0''] ''semver'' [] = Inr t" by blast
  with a have c1: "selectLatest [''not-a-version'', ''1.2.0''] ''semver'' [] = Inr ''1.2.0''"
    by simp
  from T2 b have c2: "selectLatest [''not-a-version''] ''semver'' []
      = Inl (ErrFindLatest ErrNoValidTagsAfterFiltering)" by blast
  from h a b c1 c2 show ?thesis by blast
qed

text \<open>
  C7. With a non-empty list of ignored suffixes, the suffix filter drops exactly the
  tags that contain one of the listed strings as a substring (byte for byte, anywhere
  in the tag); it runs on the valid tags and before sorting, so no such tag is returned
  as latest. Tags 1.0.0, 1.0.0-beta, 2.0.0 with the suffix beta give 2.0.0.
\<close>

theorem filterSuffixes_discards:
  assumes "ignoreSuffixes \<noteq> []"
  shows "filterSuffixes tags ignoreSuffixes
           = filter (\<lambda>t. \<forall>s \<in> set ignoreSuffixes. \<not> sublist s t) tags \<and>
         selectLatest tags scheme ignoreSuffixes =
           (case findLatestVersionFromValidTags
                   (filterSuffixes (getValidTags tags scheme) ignoreSuffixes) scheme of
              Inl err \<Rightarrow> Inl (ErrFindLatest err) | Inr latestTag \<Rightarrow> Inr latestTag) \<and>
         (\<forall>t. selectLatest tags scheme ignoreSuffixes = Inr t \<longrightarrow>
            t \<in> set tags \<and> (\<forall>s \<in> set ignoreSuffixes. \<not> sublist s t)) \<and>
         selectLatest [''1.0.0'', ''1.0.0-beta'', ''2.0.0''] ''semver'' [''beta''] = Inr ''2.0.0''"
proof -
  have 1: "filterSuffixes tags ignoreSuffixes
           = filter (\<lambda>t. \<forall>s \<in> set ignoreSuffixes. \<not> sublist s t) tags"
    by (simp add: filterSuffixes_def list_ex_iff Contains_sublist)
  have 2: "selectLatest tags scheme ignoreSuffixes =
           (case findLatestVersionFromValidTags
                   (filterSuffixes (getValidTags tags scheme) ignoreSuffixes) scheme of
              Inl err \<Rightarrow> Inl (ErrFindLatest err) | Inr latestTag \<Rightarrow> Inr latestTag)"
    using assms by (simp add: selectLatest_def)
  have 3: "t \<in> set tags \<and> (\<forall>s \<in> set ignoreSuffixes. \<not> sublist s t)"
    if "selectLatest tags scheme ignoreSuffixes = Inr t" for t
    using selectLatest_in_survivors [OF that] set_getValidTags [of tags scheme]
    by (auto simp: survivors_def Contains_sublist)
  have 4: "selectLatest [''1.0.0'', ''1.0.0-beta'', ''2.0.0''] ''semver'' [''beta''] = Inr ''2.0.0''"
    by (simp add: sel_eval ParseSemVer_def FindStringSubmatch_def atoi_eval rx_eval str_eval Let_def)
  from 1 2 3 4 show ?thesis by blast
qed

theorem filterSuffixes_discards_witness:
  "[''beta''] \<noteq> [] \<and>
   filterSuffixes [''1.0.0'', ''1.0.0-beta'', ''1.0.0-Beta''] [''beta''] = [''1.0.0'', ''1.0.0-Beta''] \<and>
   selectLatest [''1.0.0'', ''3.0.0-beta'', ''2.0.0''] ''semver'' [''beta''] = Inr ''2.0.0''"
proof -
  have h: "[''beta''] \<noteq> ([] :: string list)" by simp
  have a: "filterSuffixes [''1.0.0'', ''1.0.0-beta'', ''1.0.0-Beta''] [''beta''] = [''1.0.0'', ''1.0.0-Beta'']"
    by (simp add: filterSuffixes_def HasPrefix_def)
  have b: "selectLatest [''1.0.0'', ''3.0.0-beta'', ''2.0.0''] ''semver'' [''beta''] = Inr ''2.0.0''"
    by (simp add: sel_eval ParseSemVer_def FindStringSubmatch_def atoi_eval rx_eval str_eval Let_def)
  from filterSuffixes_discards [OF h, of "[''1.0.0'', ''3.0.0-beta'', ''2.0.0'']" "''semver''"] a b
  show ?thesis by simp
qed

section \<open>Prefix handling\<close>

lemma removePrefix_readd: "map (\<lambda>t. pfx @ t) (removePrefix tags pfx) = filter (prefix pfx) tags"
  by (induction tags) (auto simp: removePrefix_def TrimPrefix_def HasPrefix_prefix prefix_def)

lemma removePrefix_filter: "removePrefix (filter (prefix pfx) tags) pfx = removePrefix tags pfx"
  by (induction tags) (auto simp: removePrefix_def HasPrefix_prefix)

lemma set_removePrefix: "t \<in> set (removePrefix tags pfx) \<Longrightarrow> pfx @ t \<in> set tags"
proof -
  assume "t \<in> set (removePrefix tags pfx)"
  then have "pfx @ t \<in> set (map (\<lambda>t. pfx @ t) (removePrefix tags pfx))" by simp
  then show ?thesis by (simp add: removePrefix_readd)
qed

lemma TrimPrefix_no_prefix: "\<not> prefix pfx s \<Longrightarrow> TrimPrefix s pfx = s"
  by (simp add: TrimPrefix_def HasPrefix_prefix)

lemma GetLatestVersion_prefixed:
  assumes p: "IgnorePrefix vg \<noteq> []"
    and r: "GitScanner_GetLatestVersion tags (Some vg) = Inr r"
  shows "r \<in> set tags \<and> prefix (IgnorePrefix vg) r"
proof -
  let ?scheme = "if Scheme vg \<noteq> [] then Scheme vg else ''semver''"
  from p r obtain t where
    t: "selectLatest (removePrefix tags (IgnorePrefix vg)) ?scheme (IgnoreSuffixes vg) = Inr t"
    and rt: "r = IgnorePrefix vg @ t"
    by (auto simp: GitScanner_GetLatestVersion_def Let_def split: if_splits sum.splits)
  from selectLatest_in_survivors [OF t] set_survivors
  have "t \<in> set (removePrefix tags (IgnorePrefix vg))" by blast
  then have "IgnorePrefix vg @ t \<in> set tags" by (rule set_removePrefix)
  with rt show ?thesis by simp
qed

lemma GetLatestVersion_unprefixed_ignored:
  assumes p: "IgnorePrefix vg \<noteq> []" and ne: "filter (prefix (IgnorePrefix vg)) tags \<noteq> []"
  shows "GitScanner_GetLatestVersion tags (Some vg)
          = GitScanner_GetLatestVersion (filter (prefix (IgnorePrefix vg)) tags) (Some vg)"
proof -
  from ne have "tags \<noteq> []" by auto
  with p ne show ?thesis
    by (simp add: GitScanner_GetLatestVersion_def Let_def removePrefix_filter)
qed

lemma compareVersions_unprefixed:
  assumes p: "IgnorePrefix vg \<noteq> []" and np: "\<not> prefix (IgnorePrefix vg) current"
  shows "compareVersions current latest (Some vg)
          = compareVersions current (TrimPrefix latest (IgnorePrefix vg))
              (Some (vg\<lparr>IgnorePrefix := []\<rparr>))"
  using p by (simp add: compareVersions_def Let_def TrimPrefix_no_prefix [OF np])

text \<open>
  C10. With a non-empty \<open>ignorePrefix\<close>, \<open>removePrefix\<close> keeps exactly the tags that
  start with the prefix, each without it: putting the prefix back gives the prefixed
  tags, in order. A tag without the prefix takes no part in the selection: the result
  starts with the prefix and is one of the given tags, and it is the same when the
  tags without the prefix are removed beforehand. In \<open>compareVersions\<close> a current
  version without the prefix is compared as it is.
\<close>

theorem removePrefix_drops_unprefixed:
  "map (\<lambda>t. pfx @ t) (removePrefix tags pfx) = filter (prefix pfx) tags \<and>
   (IgnorePrefix vg \<noteq> [] \<longrightarrow>
      (\<forall>r. GitScanner_GetLatestVersion tags (Some vg) = Inr r \<longrightarrow>
         r \<in> set tags \<and> prefix (IgnorePrefix vg) r) \<and>
      (filter (prefix (IgnorePrefix vg)) tags \<noteq> [] \<longrightarrow>
         GitScanner_GetLatestVersion tags (Some vg)
           = GitScanner_GetLatestVersion (filter (prefix (IgnorePrefix vg)) tags) (Some vg)) \<and>
      (\<not> prefix (IgnorePrefix vg) current \<longrightarrow>
         compareVersions current latest (Some vg)
           = compareVersions current (TrimPrefix latest (IgnorePrefix vg))
               (Some (vg\<lparr>IgnorePrefix := []\<rparr>))))"
proof (intro conjI impI allI)
  show "map (\<lambda>t. pfx @ t) (removePrefix tags pfx) = filter (prefix pfx) tags"
    by (rule removePrefix_readd)
next
  fix r
  assume "IgnorePrefix vg \<noteq> []" "GitScanner_GetLatestVersion tags (Some vg) = Inr r"
  then have *: "r \<in> set tags \<and> prefix (IgnorePrefix vg) r" by (rule GetLatestVersion_prefixed)
  from * show "r \<in> set tags" ..
  from * show "prefix (IgnorePrefix vg) r" ..
next
  assume "IgnorePrefix vg \<noteq> []" "filter (prefix (IgnorePrefix vg)) tags \<noteq> []"
  then show "GitScanner_GetLatestVersion tags (Some vg)
           = GitScanner_GetLatestVersion (filter (prefix (IgnorePrefix vg)) tags) (Some vg)"
    by (rule GetLatestVersion_unprefixed_ignored)
next
  assume "IgnorePrefix vg \<noteq> []" "\<not> prefix (IgnorePrefix vg) current"
  then show "compareVersions current latest (Some vg)
           = compareVersions current (TrimPrefix latest (IgnorePrefix vg))
               (Some (vg\<lparr>IgnorePrefix := []\<rparr>))"
    by (rule compareVersions_unprefixed)
qed

theorem removePrefix_drops_unprefixed_witness:
  "removePrefix [''release-1.0.0'', ''9.0.0''] ''release-'' = [''1.0.0''] \<and>
   GitScanner_GetLatestVersion [''release-1.0.0'', ''9.0.0'']
     (Some \<lparr>Scheme = ''semver'', IgnorePrefix = ''release-'', IgnoreSuffixes = []\<rparr>)
       = Inr ''release-1.0.0'' \<and>
   compareVersions ''1.0.0'' ''release-2.0.0''
     (Some \<lparr>Scheme = ''semver'', IgnorePrefix = ''release-'', IgnoreSuffixes = []\<rparr>) = Inr True"
proof -
  let ?vg = "\<lparr>Scheme = ''semver'', IgnorePrefix = ''release-'', IgnoreSuffixes = []\<rparr>"
  have a: "removePrefix [''release-1.0.0'', ''9.0.0''] ''release-'' = [''1.0.0'']"
    by (simp add: removePrefix_def str_eval)
  have b: "filter (prefix ''release-'') [''release-1.0.0'', ''9.0.0''] = [''release-1.0.0'']"
    by simp
  have c1: "removePrefix [''release-1.0.0''] ''release-'' = [''1.0.0'']"
    by (simp add: removePrefix_def str_eval)
  have c2: "selectLatest [''1.0.0''] ''semver'' [] = Inr ''1.0.0''"
    by (simp add: sel_eval ParseSemVer_def FindStringSubmatch_def atoi_eval rx_eval str_eval Let_def)
  have c: "GitScanner_GetLatestVersion [''release-1.0.0''] (Some ?vg) = Inr ''release-1.0.0''"
    using c1 c2 by (simp add: GitScanner_GetLatestVersion_def Let_def)
  have d: "compareVersions ''1.0.0'' ''2.0.0''
     (Some \<lparr>Scheme = ''semver'', IgnorePrefix = [], IgnoreSuffixes = []\<rparr>) = Inr True"
    by (simp add: cmp_eval atoi_eval rx_eval str_eval Let_def)
  have e: "TrimPrefix ''release-2.0.0'' ''release-'' = ''2.0.0''" by (simp add: str_eval)
  have p: "IgnorePrefix ?vg \<noteq> []" by simp
  have np: "\<not> prefix (IgnorePrefix ?vg) ''1.0.0''" by simp
  have ne: "filter (prefix (IgnorePrefix ?vg)) [''release-1.0.0'', ''9.0.0''] \<noteq> []" by simp
  note T = removePrefix_drops_unprefixed [of "''release-''" "[''release-1.0.0'', ''9.0.0'']" ?vg
      "''1.0.0''" "''release-2.0.0''"]
  from T p ne have "GitScanner_GetLatestVersion [''release-1.0.0'', ''9.0.0''] (Some ?vg)
      = GitScanner_GetLatestVersion (filter (prefix (IgnorePrefix ?vg)) [''release-1.0.0'', ''9.0.0''])
          (Some ?vg)" by blast
  with c have g: "GitScanner_GetLatestVersion [''release-1.0.0'', ''9.0.0''] (Some ?vg)
      = Inr ''release-1.0.0''" by simp
  from T p np have "compareVersions ''1.0.0'' ''release-2.0.0'' (Some ?vg)
      = compareVersions ''1.0.0'' (TrimPrefix ''release-2.0.0'' (IgnorePrefix ?vg))
          (Some (?vg\<lparr>IgnorePrefix := []\<rparr>))" by blast
  with d e have k: "compareVersions ''1.0.0'' ''release-2.0.0'' (Some ?vg) = Inr True" by simp
  from a g k show ?thesis by blast
qed

section \<open>Calendar versions\<close>

text \<open>
  C3. \<open>SortCalVer\<close> sorts the valid tags as strings. Both 2024.9.1 and 2024.10.1 are
  valid calendar versions and \<open>CompareCalVer\<close> puts 2024.9.1 below 2024.10.1, but as
  a string 2024.10.1 is the smaller one, and the tag returned as latest is 2024.9.1.
\<close>

theorem calver_latest_by_string_order:
  "FilterValidCalVer [''2024.9.1'', ''2024.10.1''] = [''2024.9.1'', ''2024.10.1''] \<and>
   CompareCalVer ''2024.9.1'' ''2024.10.1'' = Inr Less \<and>
   SortCalVer [''2024.9.1'', ''2024.10.1''] = [''2024.10.1'', ''2024.9.1''] \<and>
   selectLatest [''2024.9.1'', ''2024.10.1''] ''calver'' [] = Inr ''2024.9.1'' \<and>
   version_GetLatestVersion [''2024.9.1'', ''2024.10.1''] ''calver'' = Inr ''2024.9.1''"
  by (simp add: sel_eval version_GetLatestVersion_def CompareCalVer_def atoi_eval rx_eval Let_def)

theorem calver_latest_by_string_order_witness:
  "selectLatest [''2024.9.1'', ''2024.10.1''] ''calver'' [] \<noteq> Inr ''2024.10.1'' \<and>
   version_GetLatestVersion [''2024.9.1'', ''2024.10.1''] ''calver'' \<noteq> Inr ''2024.10.1''"
  using calver_latest_by_string_order by simp

text \<open>
  C1. \<open>CompareCalVer\<close> returns at the first pair of components that differ and
  never converts the components after it. The current version 2024.1.x is reported
  as older than 2025.1.1, without an error, although its third component is not a
  number; against 2024.1.1 the same string is an error, and the tag filter rejects it.
\<close>

theorem compareVersions_calver_early_return:
  "compareVersions ''2024.1.x'' ''2025.1.1''
     (Some \<lparr>Scheme = ''calver'', IgnorePrefix = [], IgnoreSuffixes = []\<rparr>) = Inr True \<and>
   compareVersions ''2024.1.x'' ''2024.1.1''
     (Some \<lparr>Scheme = ''calver'', IgnorePrefix = [], IgnoreSuffixes = []\<rparr>)
       = Inl (ErrInvalidCalVerNumber ''x'') \<and>
   FilterValidCalVer [''2024.1.x''] = []"
  by (simp add: cmp_eval FilterValidCalVer_def atoi_eval rx_eval Let_def)

theorem compareVersions_calver_early_return_witness:
  "\<not> isl (compareVersions ''2024.1.x'' ''2025.1.1''
            (Some \<lparr>Scheme = ''calver'', IgnorePrefix = [], IgnoreSuffixes = []\<rparr>)) \<and>
   isl (compareVersions ''2024.1.x'' ''2024.1.1''
            (Some \<lparr>Scheme = ''calver'', IgnorePrefix = [], IgnoreSuffixes = []\<rparr>))"
  using compareVersions_calver_early_return by simp

section \<open>Splitting on a separator and the languages of the patterns\<close>

lemma Split_not_Nil: "Split s sep \<noteq> []"
  by (induction s) (auto split: list.splits)

lemma Split_no_sep: "sep \<notin> set s \<Longrightarrow> Split s sep = [s]"
  by (induction s) auto

lemma Split_append_sep: "sep \<notin> set a \<Longrightarrow> Split (a @ sep # r) sep = a # Split r sep"
  by (induction a) auto

lemma Split_single: "Split s sep = [w] \<Longrightarrow> s = w \<and> sep \<notin> set w"
proof (induction s arbitrary: w)
  case Nil
  then show ?case by simp
next
  case (Cons c cs)
  show ?case
  proof (cases "c = sep")
    case True
    with Cons.prems show ?thesis by (simp add: Split_not_Nil)
  next
    case False
    with Cons.prems obtain w' where w': "Split cs sep = [w']" "w = c # w'"
      by (auto simp: Split_not_Nil split: list.splits)
    with Cons.IH [of w'] False show ?thesis by auto
  qed
qed

lemma Split_Cons2:
  "Split s sep = w # w' # ws \<Longrightarrow> \<exists>r. s = w @ sep # r \<and> Split r sep = w' # ws \<and> sep \<notin> set w"
proof (induction s arbitrary: w)
  case Nil
  then show ?case by simp
next
  case (Cons c cs)
  show ?case
  proof (cases "c = sep")
    case True
    with Cons.prems show ?thesis by auto
  next
    case False
    with Cons.prems obtain u where u: "Split cs sep = u # w' # ws" "w = c # u"
      by (auto simp: Split_not_Nil split: list.splits)
    from Cons.IH [OF u(1)] obtain r where "cs = u @ sep # r" "Split r sep = w' # ws" "sep \<notin> set u"
      by blast
    with u False show ?thesis by auto
  qed
qed

lemma Split_three:
  "Split s sep = [a, b, c] \<longleftrightarrow>
     s = a @ sep # b @ sep # c \<and> sep \<notin> set a \<and> sep \<notin> set b \<and> sep \<notin> set c"
proof
  assume "Split s sep = [a, b, c]"
  from Split_Cons2 [OF this] obtain r where r: "s = a @ sep # r" "Split r sep = [b, c]" "sep \<notin> set a"
    by blast
  from Split_Cons2 [OF r(2)] obtain r' where r': "r = b @ sep # r'" "Split r' sep = [c]" "sep \<notin> set b"
    by blast
  from Split_single [OF r'(2)] r r' show
    "s = a @ sep # b @ sep # c \<and> sep \<notin> set a \<and> sep \<notin> set b \<and> sep \<notin> set c" by simp
next
  assume "s = a @ sep # b @ sep # c \<and> sep \<notin> set a \<and> sep \<notin> set b \<and> sep \<notin> set c"
  then show "Split s sep = [a, b, c]"
    by (simp add: Split_append_sep Split_no_sep)
qed

lemma is_digit_not_dot: "is_digit c \<Longrightarrow> c \<noteq> CHR ''.''"
  by (auto simp: is_digit_def)

lemma digits_no_dot: "list_all is_digit s \<Longrightarrow> CHR ''.'' \<notin> set s"
  by (auto simp: list_all_iff dest: is_digit_not_dot)

lemma star_Cls: "star {[c] | c. P c} = {s. list_all P s}"
proof (rule set_eqI, rule iffI)
  fix s assume "s \<in> star {[c] | c. P c}"
  then have "list_all P s" by (induction rule: star.induct) auto
  then show "s \<in> {s. list_all P s}" by simp
next
  fix s assume "s \<in> {s. list_all P s}"
  then have "list_all P s" by simp
  then show "s \<in> star {[c] | c. P c}"
  proof (induction s)
    case Nil
    show ?case by (rule star_empty)
  next
    case (Cons c s)
    then have "[c] \<in> {[c] | c. P c}" "s \<in> star {[c] | c. P c}" by auto
    from star_step [OF this] show ?case by simp
  qed
qed

lemma in_lang_Seq_Cls: "s \<in> lang (Seq (Cls P) r) \<longleftrightarrow> (\<exists>c w. s = c # w \<and> P c \<and> w \<in> lang r)"
proof
  assume "s \<in> lang (Seq (Cls P) r)"
  then show "\<exists>c w. s = c # w \<and> P c \<and> w \<in> lang r" by auto
next
  assume "\<exists>c w. s = c # w \<and> P c \<and> w \<in> lang r"
  then obtain c w where "s = [c] @ w" "P c" "w \<in> lang r" by auto
  then show "s \<in> lang (Seq (Cls P) r)" unfolding lang.simps by blast
qed

lemma in_lang_Seq_Lit: "s \<in> lang (Seq (Lit c) r) \<longleftrightarrow> (\<exists>w. s = c # w \<and> w \<in> lang r)"
  by (auto simp: Lit_def)

lemma in_lang_Plus_Cls: "s \<in> lang (Plus (Cls P)) \<longleftrightarrow> s \<noteq> [] \<and> list_all P s"
proof -
  have "w \<in> lang (Star (Cls P)) \<longleftrightarrow> list_all P w" for w
    by (simp add: star_Cls)
  then have "s \<in> lang (Plus (Cls P)) \<longleftrightarrow> (\<exists>c w. s = c # w \<and> P c \<and> list_all P w)"
    unfolding Plus_def in_lang_Seq_Cls by simp
  also have "\<dots> \<longleftrightarrow> s \<noteq> [] \<and> list_all P s" by (cases s) auto
  finally show ?thesis .
qed

lemma in_lang_Seq_Opt: "s \<in> lang (Seq (Opt r) r') \<longleftrightarrow> s \<in> lang r' \<or> s \<in> lang (Seq r r')"
  by (auto simp: Opt_def)

lemma length4: "length y = 4 \<Longrightarrow> \<exists>a b c e. y = [a, b, c, e]"
  by (auto simp: eval_nat_numeral length_Suc_conv)

lemma length12: "length m = 1 \<or> length m = 2 \<Longrightarrow> (\<exists>a. m = [a]) \<or> (\<exists>a b. m = [a, b])"
  by (auto simp: eval_nat_numeral length_Suc_conv)

lemma calverRegex_lang:
  "s \<in> lang calverRegex \<longleftrightarrow>
     (\<exists>y m n. s = y @ CHR ''.'' # m @ CHR ''.'' # n \<and> length y = 4 \<and> list_all is_digit y \<and>
        (length m = 1 \<or> length m = 2) \<and> list_all is_digit m \<and> n \<noteq> [] \<and> list_all is_digit n)"
  (is "?L \<longleftrightarrow> ?R")
proof
  assume ?L
  then obtain a b c e m1 rest where s: "s = a # b # c # e # CHR ''.'' # m1 # rest"
    and d: "is_digit a" "is_digit b" "is_digit c" "is_digit e" "is_digit m1"
    and rest: "rest \<in> lang (Seq (Opt (Cls is_digit)) (Seq (Lit CHR ''.'') (Plus (Cls is_digit))))"
    unfolding calverRegex_def in_lang_Seq_Cls in_lang_Seq_Lit by blast
  from rest consider
      n where "rest = CHR ''.'' # n" "n \<noteq> []" "list_all is_digit n"
    | m2 n where "rest = m2 # CHR ''.'' # n" "is_digit m2" "n \<noteq> []" "list_all is_digit n"
    unfolding in_lang_Seq_Opt in_lang_Seq_Cls in_lang_Seq_Lit in_lang_Plus_Cls by blast
  then show ?R
  proof cases
    case 1
    with s d have "s = [a, b, c, e] @ CHR ''.'' # [m1] @ CHR ''.'' # n \<and> length [a, b, c, e] = 4 \<and>
      list_all is_digit [a, b, c, e] \<and> (length [m1] = 1 \<or> length [m1] = 2) \<and>
      list_all is_digit [m1] \<and> n \<noteq> [] \<and> list_all is_digit n" by simp
    then show ?thesis by blast
  next
    case 2
    with s d have "s = [a, b, c, e] @ CHR ''.'' # [m1, m2] @ CHR ''.'' # n \<and> length [a, b, c, e] = 4 \<and>
      list_all is_digit [a, b, c, e] \<and> (length [m1, m2] = 1 \<or> length [m1, m2] = 2) \<and>
      list_all is_digit [m1, m2] \<and> n \<noteq> [] \<and> list_all is_digit n" by simp
    then show ?thesis by blast
  qed
next
  assume ?R
  then obtain y m n where s: "s = y @ CHR ''.'' # m @ CHR ''.'' # n"
    and y: "length y = 4" "list_all is_digit y"
    and m: "length m = 1 \<or> length m = 2" "list_all is_digit m"
    and n: "n \<noteq> []" "list_all is_digit n" by blast
  from length4 [OF y(1)] obtain a b c e where yy: "y = [a, b, c, e]" by blast
  from length12 [OF m(1)] show ?L
  proof
    assume "\<exists>a. m = [a]"
    then obtain m1 where "m = [m1]" ..
    with s yy y m n show ?L
      unfolding calverRegex_def in_lang_Seq_Cls in_lang_Seq_Lit in_lang_Seq_Opt in_lang_Plus_Cls
      by simp
  next
    assume "\<exists>a b. m = [a, b]"
    then obtain m1 m2 where "m = [m1, m2]" by blast
    with s yy y m n show ?L
      unfolding calverRegex_def in_lang_Seq_Cls in_lang_Seq_Lit in_lang_Seq_Opt in_lang_Plus_Cls
      by simp
  qed
qed

lemma MatchString_calverRegex:
  "MatchString calverRegex tag \<longleftrightarrow>
     (\<exists>y m n. Split tag CHR ''.'' = [y, m, n] \<and> length y = 4 \<and> list_all is_digit y \<and>
        (length m = 1 \<or> length m = 2) \<and> list_all is_digit m \<and> n \<noteq> [] \<and> list_all is_digit n)"
  (is "_ \<longleftrightarrow> ?R")
proof -
  have "tag \<in> lang calverRegex \<longleftrightarrow> ?R"
  proof
    assume "tag \<in> lang calverRegex"
    then obtain y m n where *: "tag = y @ CHR ''.'' # m @ CHR ''.'' # n" "length y = 4"
      "list_all is_digit y" "length m = 1 \<or> length m = 2" "list_all is_digit m" "n \<noteq> []"
      "list_all is_digit n" unfolding calverRegex_lang by blast
    then have "Split tag CHR ''.'' = [y, m, n]"
      by (simp add: Split_three digits_no_dot)
    with * show ?R by blast
  next
    assume ?R
    then obtain y m n where *: "Split tag CHR ''.'' = [y, m, n]" "length y = 4"
      "list_all is_digit y" "length m = 1 \<or> length m = 2" "list_all is_digit m" "n \<noteq> []"
      "list_all is_digit n" by blast
    from *(1) have "tag = y @ CHR ''.'' # m @ CHR ''.'' # n" by (simp add: Split_three)
    with * show "tag \<in> lang calverRegex" unfolding calverRegex_lang by blast
  qed
  then show ?thesis by (simp add: MatchString_lang)
qed

lemma calver_valid_is_numeric: "MatchString calverRegex tag \<Longrightarrow> calverSpecValid tag"
  unfolding MatchString_calverRegex calverSpecValid_def numeric_def by auto

text \<open>
  C4. The calendar validity check accepts a tag exactly when splitting it on the dot
  gives three components, the first of exactly four digits, the second of one or two
  digits, the third of one or more digits. Every accepted tag has three numeric
  components, but not every such tag is accepted: the widths of the first two
  components are checked, their ranges are not.
\<close>

theorem FilterValidCalVer_shape:
  "FilterValidCalVer tags =
     filter (\<lambda>tag. \<exists>y m n. Split tag CHR ''.'' = [y, m, n] \<and> length y = 4 \<and> list_all is_digit y \<and>
        (length m = 1 \<or> length m = 2) \<and> list_all is_digit m \<and> n \<noteq> [] \<and> list_all is_digit n) tags \<and>
   (\<forall>tag \<in> set (FilterValidCalVer tags). calverSpecValid tag)"
proof -
  have "MatchString calverRegex =
     (\<lambda>tag. \<exists>y m n. Split tag CHR ''.'' = [y, m, n] \<and> length y = 4 \<and> list_all is_digit y \<and>
        (length m = 1 \<or> length m = 2) \<and> list_all is_digit m \<and> n \<noteq> [] \<and> list_all is_digit n)"
    by (rule ext) (rule MatchString_calverRegex)
  then have "FilterValidCalVer tags =
     filter (\<lambda>tag. \<exists>y m n. Split tag CHR ''.'' = [y, m, n] \<and> length y = 4 \<and> list_all is_digit y \<and>
        (length m = 1 \<or> length m = 2) \<and> list_all is_digit m \<and> n \<noteq> [] \<and> list_all is_digit n) tags"
    unfolding FilterValidCalVer_def by (rule arg_cong)
  moreover have "\<forall>tag \<in> set (FilterValidCalVer tags). calverSpecValid tag"
    by (simp add: FilterValidCalVer_def calver_valid_is_numeric)
  ultimately show ?thesis by (rule conjI)
qed

theorem FilterValidCalVer_shape_witness:
  "FilterValidCalVer [''2024.12.1'', ''2024.99.0007'', ''1.2.3'', ''2024.123.1''] = [''2024.12.1'', ''2024.99.0007''] \<and>
   calverSpecValid ''2024.12.1''"
proof -
  have a: "FilterValidCalVer [''2024.12.1'', ''2024.99.0007'', ''1.2.3'', ''2024.123.1'']
      = [''2024.12.1'', ''2024.99.0007'']"
    by (simp add: FilterValidCalVer_def rx_eval is_digit_def)
  from FilterValidCalVer_shape [of "[''2024.12.1'', ''2024.99.0007'', ''1.2.3'', ''2024.123.1'']"] a
  have "\<forall>tag \<in> set [''2024.12.1'', ''2024.99.0007'']. calverSpecValid tag" by simp
  with a show ?thesis by simp
qed

text \<open>
  C4, without the widths: 1.2.3 and 2024.123.1 split into three numeric components,
  and the validity check rejects both.
\<close>

theorem calver_validity_counterexample:
  "calverSpecValid ''1.2.3'' \<and> FilterValidCalVer [''1.2.3''] = [] \<and>
   calverSpecValid ''2024.123.1'' \<and> FilterValidCalVer [''2024.123.1''] = []"
  by (simp add: calverSpecValid_def numeric_def FilterValidCalVer_def rx_eval is_digit_def)

section \<open>ParseSemVer and the grammar\<close>

lemma is_idchar_not_dot: "is_idchar c \<Longrightarrow> c \<noteq> CHR ''.''"
  by (auto simp: is_idchar_def is_digit_def)

lemma is_idchar_not_plus: "is_idchar c \<Longrightarrow> c \<noteq> CHR ''+''"
  by (auto simp: is_idchar_def is_digit_def)

lemma idchars_no_dot: "list_all is_idchar s \<Longrightarrow> CHR ''.'' \<notin> set s"
  by (auto simp: list_all_iff dest: is_idchar_not_dot)

lemma in_lang_Seq: "s \<in> lang (Seq r r') \<longleftrightarrow> (\<exists>u v. s = u @ v \<and> u \<in> lang r \<and> v \<in> lang r')"
  by auto

lemma in_lang_Opt: "s \<in> lang (Opt r) \<longleftrightarrow> s = [] \<or> s \<in> lang r"
  by (auto simp: Opt_def)

lemma star_dotted_identifiers:
  assumes "t \<in> star (lang (Seq (Lit CHR ''.'') (Plus (Cls is_idchar))))"
    and "CHR ''.'' \<notin> set w"
  shows "list_all (\<lambda>p. p \<noteq> [] \<and> list_all is_idchar p) (Split (w @ t) CHR ''.'')
           \<longleftrightarrow> w \<noteq> [] \<and> list_all is_idchar w"
  using assms
proof (induction arbitrary: w rule: star.induct)
  case star_empty
  then show ?case by (simp add: Split_no_sep)
next
  case (star_step u v)
  from star_step.hyps(1) obtain p where u: "u = CHR ''.'' # p" and p: "p \<noteq> []" "list_all is_idchar p"
    unfolding in_lang_Seq_Lit in_lang_Plus_Cls by blast
  from p have "CHR ''.'' \<notin> set p" by (simp add: idchars_no_dot)
  from star_step.IH [OF this] p
  have "list_all (\<lambda>p. p \<noteq> [] \<and> list_all is_idchar p) (Split (p @ v) CHR ''.'')" by simp
  with star_step.prems u show ?case by (simp add: Split_append_sep)
qed

lemma identifiers_in_lang:
  "list_all (\<lambda>p. p \<noteq> [] \<and> list_all is_idchar p) parts \<Longrightarrow> Split s CHR ''.'' = parts \<Longrightarrow>
     \<exists>w t. s = w @ t \<and> w \<noteq> [] \<and> list_all is_idchar w \<and>
            t \<in> star (lang (Seq (Lit CHR ''.'') (Plus (Cls is_idchar))))"
proof (induction parts arbitrary: s)
  case Nil
  then show ?case by (simp add: Split_not_Nil)
next
  case (Cons w ws)
  show ?case
  proof (cases ws)
    case Nil
    with Cons.prems have "s = w" by (simp add: Split_single)
    with Cons.prems show ?thesis
      using star_empty [of "lang (Seq (Lit CHR ''.'') (Plus (Cls is_idchar)))"] by auto
  next
    case (Cons w' ws')
    with Cons.prems have "Split s CHR ''.'' = w # w' # ws'" by simp
    from Split_Cons2 [OF this] obtain r where r: "s = w @ CHR ''.'' # r" "Split r CHR ''.'' = ws"
      using Cons by blast
    from Cons.prems have "list_all (\<lambda>p. p \<noteq> [] \<and> list_all is_idchar p) ws" by simp
    from Cons.IH [OF this r(2)] obtain w2 t2 where w2: "r = w2 @ t2" "w2 \<noteq> []"
      "list_all is_idchar w2" "t2 \<in> star (lang (Seq (Lit CHR ''.'') (Plus (Cls is_idchar))))"
      by blast
    from w2 have "CHR ''.'' # w2 \<in> lang (Seq (Lit CHR ''.'') (Plus (Cls is_idchar)))"
      unfolding in_lang_Seq_Lit in_lang_Plus_Cls by simp
    from star_step [OF this w2(4)]
    have "(CHR ''.'' # w2) @ t2 \<in> star (lang (Seq (Lit CHR ''.'') (Plus (Cls is_idchar))))" .
    moreover have "s = w @ ((CHR ''.'' # w2) @ t2)" using r w2 by simp
    moreover from Cons.prems have "w \<noteq> []" "list_all is_idchar w" by simp_all
    ultimately show ?thesis by blast
  qed
qed

lemma identifiersRegex_lang: "s \<in> lang identifiersRegex \<longleftrightarrow> identifiers s"
proof
  assume "s \<in> lang identifiersRegex"
  then obtain w t where "s = w @ t" "w \<noteq> []" "list_all is_idchar w"
    "t \<in> star (lang (Seq (Lit CHR ''.'') (Plus (Cls is_idchar))))"
    unfolding identifiersRegex_def in_lang_Seq in_lang_Plus_Cls lang.simps(6) by blast
  then show "identifiers s"
    using star_dotted_identifiers [of t w] by (simp add: identifiers_def idchars_no_dot)
next
  assume "identifiers s"
  then have "list_all (\<lambda>p. p \<noteq> [] \<and> list_all is_idchar p) (Split s CHR ''.'')"
    by (simp add: identifiers_def)
  from identifiers_in_lang [OF this refl] obtain w t where "s = w @ t" "w \<noteq> []"
    "list_all is_idchar w" "t \<in> star (lang (Seq (Lit CHR ''.'') (Plus (Cls is_idchar))))" by blast
  then show "s \<in> lang identifiersRegex"
    unfolding identifiersRegex_def in_lang_Seq in_lang_Plus_Cls lang.simps(6) by blast
qed

lemma optional_group_lang:
  "s \<in> lang (Opt (Seq (Lit c) identifiersRegex)) \<longleftrightarrow>
     (\<exists>q. s = optPart c q \<and> (case q of None \<Rightarrow> True | Some p \<Rightarrow> identifiers p))"
proof
  assume "s \<in> lang (Opt (Seq (Lit c) identifiersRegex))"
  then consider "s = []" | p where "s = c # p" "identifiers p"
    unfolding in_lang_Opt in_lang_Seq_Lit identifiersRegex_lang by blast
  then show "\<exists>q. s = optPart c q \<and> (case q of None \<Rightarrow> True | Some p \<Rightarrow> identifiers p)"
  proof cases
    case 1
    then have "s = optPart c None \<and> (case None of None \<Rightarrow> True | Some p \<Rightarrow> identifiers p)"
      by simp
    then show ?thesis ..
  next
    case 2
    then have "s = optPart c (Some p) \<and> (case Some p of None \<Rightarrow> True | Some p \<Rightarrow> identifiers p)"
      by simp
    then show ?thesis ..
  qed
next
  assume "\<exists>q. s = optPart c q \<and> (case q of None \<Rightarrow> True | Some p \<Rightarrow> identifiers p)"
  then obtain q where q: "s = optPart c q" "case q of None \<Rightarrow> True | Some p \<Rightarrow> identifiers p"
    by blast
  then show "s \<in> lang (Opt (Seq (Lit c) identifiersRegex))"
    unfolding in_lang_Opt in_lang_Seq_Lit identifiersRegex_lang by (cases q) auto
qed

lemma semverRegex_lang:
  "v \<in> lang semverRegex \<longleftrightarrow> (\<exists>ma mi pa pre build. semverGrammar v ma mi pa pre build)"
proof
  assume "v \<in> lang semverRegex"
  then obtain ma r1 where 1: "v = ma @ r1" "numeric ma"
      "r1 \<in> lang (Seq (Lit CHR ''.'') (Seq (Plus (Cls is_digit)) (Seq (Lit CHR ''.'')
        (Seq (Plus (Cls is_digit))
        (Seq (Opt (Seq (Lit CHR ''-'') identifiersRegex))
             (Opt (Seq (Lit CHR ''+'') identifiersRegex)))))))"
    unfolding semverRegex_def in_lang_Seq [of v] in_lang_Plus_Cls numeric_def by blast
  from 1(3) obtain mi r2 where 2: "r1 = CHR ''.'' # mi @ r2" "numeric mi"
      "r2 \<in> lang (Seq (Lit CHR ''.'') (Seq (Plus (Cls is_digit))
        (Seq (Opt (Seq (Lit CHR ''-'') identifiersRegex))
             (Opt (Seq (Lit CHR ''+'') identifiersRegex)))))"
    unfolding in_lang_Seq_Lit [of r1] in_lang_Seq [of _ "Plus (Cls is_digit)"] in_lang_Plus_Cls
      numeric_def by blast
  from 2(3) obtain pa r3 where 3: "r2 = CHR ''.'' # pa @ r3" "numeric pa"
      "r3 \<in> lang (Seq (Opt (Seq (Lit CHR ''-'') identifiersRegex))
             (Opt (Seq (Lit CHR ''+'') identifiersRegex)))"
    unfolding in_lang_Seq_Lit [of r2] in_lang_Seq [of _ "Plus (Cls is_digit)"] in_lang_Plus_Cls
      numeric_def by blast
  from 3(3) obtain pre build where 4: "r3 = optPart CHR ''-'' pre @ optPart CHR ''+'' build"
      "case pre of None \<Rightarrow> True | Some p \<Rightarrow> identifiers p"
      "case build of None \<Rightarrow> True | Some b \<Rightarrow> identifiers b"
    unfolding in_lang_Seq [of r3] optional_group_lang by blast
  from 1 2 3 4 have "semverGrammar v ma mi pa pre build"
    by (simp add: semverGrammar_def semverText_def)
  then show "\<exists>ma mi pa pre build. semverGrammar v ma mi pa pre build" by blast
next
  assume "\<exists>ma mi pa pre build. semverGrammar v ma mi pa pre build"
  then obtain ma mi pa pre build where g: "semverGrammar v ma mi pa pre build" by blast
  then have t: "optPart CHR ''-'' pre @ optPart CHR ''+'' build
      \<in> lang (Seq (Opt (Seq (Lit CHR ''-'') identifiersRegex))
             (Opt (Seq (Lit CHR ''+'') identifiersRegex)))"
    unfolding in_lang_Seq [of "optPart CHR ''-'' pre @ optPart CHR ''+'' build"] optional_group_lang
      semverGrammar_def by blast
  from g have n: "ma \<in> lang (Plus (Cls is_digit))" "mi \<in> lang (Plus (Cls is_digit))"
    "pa \<in> lang (Plus (Cls is_digit))"
    by (simp_all add: semverGrammar_def numeric_def in_lang_Plus_Cls)
  from n(3) t have "pa @ optPart CHR ''-'' pre @ optPart CHR ''+'' build
      \<in> lang (Seq (Plus (Cls is_digit)) (Seq (Opt (Seq (Lit CHR ''-'') identifiersRegex))
             (Opt (Seq (Lit CHR ''+'') identifiersRegex))))"
    unfolding in_lang_Seq [of "pa @ optPart CHR ''-'' pre @ optPart CHR ''+'' build"] by blast
  then have "CHR ''.'' # pa @ optPart CHR ''-'' pre @ optPart CHR ''+'' build
      \<in> lang (Seq (Lit CHR ''.'') (Seq (Plus (Cls is_digit))
            (Seq (Opt (Seq (Lit CHR ''-'') identifiersRegex))
             (Opt (Seq (Lit CHR ''+'') identifiersRegex)))))"
    unfolding in_lang_Seq_Lit by blast
  with n(2) have "mi @ CHR ''.'' # pa @ optPart CHR ''-'' pre @ optPart CHR ''+'' build
      \<in> lang (Seq (Plus (Cls is_digit)) (Seq (Lit CHR ''.'') (Seq (Plus (Cls is_digit))
            (Seq (Opt (Seq (Lit CHR ''-'') identifiersRegex))
             (Opt (Seq (Lit CHR ''+'') identifiersRegex))))))"
    unfolding in_lang_Seq [of "mi @ CHR ''.'' # pa @ optPart CHR ''-'' pre @ optPart CHR ''+'' build"]
    by blast
  then have "CHR ''.'' # mi @ CHR ''.'' # pa @ optPart CHR ''-'' pre @ optPart CHR ''+'' build
      \<in> lang (Seq (Lit CHR ''.'') (Seq (Plus (Cls is_digit)) (Seq (Lit CHR ''.'')
            (Seq (Plus (Cls is_digit))
            (Seq (Opt (Seq (Lit CHR ''-'') identifiersRegex))
             (Opt (Seq (Lit CHR ''+'') identifiersRegex)))))))"
    unfolding in_lang_Seq_Lit by blast
  with n(1) have "semverText ma mi pa pre build \<in> lang semverRegex"
    unfolding semverRegex_def semverText_def
      in_lang_Seq [of "ma @ CHR ''.'' # mi @ CHR ''.'' # pa @ optPart CHR ''-'' pre @ optPart CHR ''+'' build"]
    by blast
  with g show "v \<in> lang semverRegex" by (simp add: semverGrammar_def)
qed

lemma takeWhile_run:
  "list_all P xs \<Longrightarrow> ys = [] \<or> \<not> P (hd ys) \<Longrightarrow> takeWhile P (xs @ ys) = xs"
proof (induction xs)
  case Nil
  then show ?case by (cases ys) auto
next
  case (Cons x xs)
  then show ?case by simp
qed

lemma in_Split:
  "x \<in> set s \<Longrightarrow> x = sep \<or> (\<exists>p \<in> set (Split s sep). x \<in> set p)"
proof (induction s)
  case Nil
  then show ?case by simp
next
  case (Cons c cs)
  show ?case
  proof (cases "c = sep")
    case True
    with Cons show ?thesis by auto
  next
    case False
    obtain w ws where w: "Split cs sep = w # ws"
      using Split_not_Nil [of cs sep] by (cases "Split cs sep") auto
    with Cons False show ?thesis by auto
  qed
qed

lemma identifiers_no_plus: "identifiers p \<Longrightarrow> CHR ''+'' \<notin> set p"
proof
  assume i: "identifiers p" and "CHR ''+'' \<in> set p"
  from in_Split [OF this(2), of "CHR ''.''"] obtain q where "q \<in> set (Split p CHR ''.'')"
    "CHR ''+'' \<in> set q" by auto
  with i have "is_idchar CHR ''+''" by (auto simp: identifiers_def list_all_iff)
  then show False by (simp add: is_idchar_def is_digit_def)
qed

lemma optPart_plus_head: "optPart CHR ''+'' build = [] \<or> \<not> is_digit (hd (optPart CHR ''+'' build))"
  by (cases build) (simp_all add: is_digit_def)

lemma tail_head:
  "optPart CHR ''-'' pre @ optPart CHR ''+'' build = [] \<or>
   \<not> is_digit (hd (optPart CHR ''-'' pre @ optPart CHR ''+'' build))"
  by (cases pre; cases build) (simp_all add: is_digit_def)

lemma FindStringSubmatch_groups:
  assumes g: "semverGrammar v ma mi pa pre build"
  shows "FindStringSubmatch v =
           Some [v, ma, mi, pa, (case pre of None \<Rightarrow> [] | Some p \<Rightarrow> p),
                 (case build of None \<Rightarrow> [] | Some b \<Rightarrow> b)]"
proof -
  let ?tail = "optPart CHR ''-'' pre @ optPart CHR ''+'' build"
  from g have v: "v = ma @ CHR ''.'' # mi @ CHR ''.'' # pa @ ?tail"
    and d: "list_all is_digit ma" "list_all is_digit mi" "list_all is_digit pa"
    by (simp_all add: semverGrammar_def semverText_def numeric_def)
  from g have m: "MatchString semverRegex v"
    unfolding MatchString_lang semverRegex_lang by blast
  have nd: "\<not> is_digit CHR ''.''" by (simp add: is_digit_def)
  have g1: "takeWhile is_digit v = ma"
    unfolding v using takeWhile_run [OF d(1), of "CHR ''.'' # mi @ CHR ''.'' # pa @ ?tail"] nd
    by simp
  have r1: "drop (length ma + 1) v = mi @ CHR ''.'' # pa @ ?tail"
    unfolding v by simp
  have g2: "takeWhile is_digit (mi @ CHR ''.'' # pa @ ?tail) = mi"
    using takeWhile_run [OF d(2), of "CHR ''.'' # pa @ ?tail"] nd by simp
  have r2: "drop (length mi + 1) (mi @ CHR ''.'' # pa @ ?tail) = pa @ ?tail" by simp
  have g3: "takeWhile is_digit (pa @ ?tail) = pa"
    using takeWhile_run [OF d(3) tail_head] .
  have r3: "drop (length pa) (pa @ ?tail) = ?tail" by simp
  have g4: "(if HasPrefix ?tail ''-'' then takeWhile (\<lambda>c. c \<noteq> CHR ''+'') (tl ?tail) else [])
      = (case pre of None \<Rightarrow> [] | Some p \<Rightarrow> p)"
  proof (cases pre)
    case None
    then show ?thesis by (cases build) (simp_all add: HasPrefix_def)
  next
    case (Some p)
    with g have "identifiers p" by (simp add: semverGrammar_def)
    then have "list_all (\<lambda>c. c \<noteq> CHR ''+'') p"
      using identifiers_no_plus [of p] by (auto simp: list_all_iff)
    from takeWhile_run [OF this, of "optPart CHR ''+'' build"]
    have "takeWhile (\<lambda>c. c \<noteq> CHR ''+'') (p @ optPart CHR ''+'' build) = p"
      by (cases build) simp_all
    with Some show ?thesis by (simp add: HasPrefix_def)
  qed
  have r4: "(if HasPrefix ?tail ''-''
             then drop (length (case pre of None \<Rightarrow> [] | Some p \<Rightarrow> p) + 1) ?tail else ?tail)
      = optPart CHR ''+'' build"
  proof (cases pre)
    case None
    then show ?thesis by (cases build) (simp_all add: HasPrefix_def)
  next
    case (Some p)
    then show ?thesis by (simp add: HasPrefix_def)
  qed
  have g5: "(if HasPrefix (optPart CHR ''+'' build) ''+'' then tl (optPart CHR ''+'' build) else [])
      = (case build of None \<Rightarrow> [] | Some b \<Rightarrow> b)"
    by (cases build) (simp_all add: HasPrefix_def)
  show ?thesis
    unfolding FindStringSubmatch_def Let_def using m
    by (simp only: g1 r1 g2 r2 g3 r3 g4 r4 g5 not_True_eq_False if_False)
qed

lemma FindStringSubmatch_None:
  "\<not> (\<exists>ma mi pa pre build. semverGrammar v ma mi pa pre build) \<Longrightarrow> FindStringSubmatch v = None"
  unfolding FindStringSubmatch_def MatchString_lang semverRegex_lang by simp

lemma foldl_decimal_ge: "n \<le> foldl (\<lambda>n c. n * 10 + digit_val c) n cs"
proof (induction cs arbitrary: n)
  case Nil
  show ?case by simp
next
  case (Cons c cs)
  have "n \<le> n * 10 + digit_val c" by simp
  also have "\<dots> \<le> foldl (\<lambda>n c. n * 10 + digit_val c) (n * 10 + digit_val c) cs" by (rule Cons.IH)
  finally show ?case by simp
qed

lemma ParseUint_loop_digits:
  "list_all is_digit cs \<Longrightarrow> n \<le> maxUint64 \<Longrightarrow>
     ParseUint_loop n cs =
       (if foldl (\<lambda>n c. n * 10 + digit_val c) n cs \<le> maxUint64
        then (foldl (\<lambda>n c. n * 10 + digit_val c) n cs, None)
        else (maxUint64, Some ErrRange))"
proof (induction cs arbitrary: n)
  case Nil
  then show ?case by simp
next
  case (Cons c cs)
  let ?n' = "n * 10 + digit_val c"
  have ge: "?n' \<le> foldl (\<lambda>n c. n * 10 + digit_val c) ?n' cs" by (rule foldl_decimal_ge)
  show ?case
  proof (cases "n \<ge> maxUint64 div 10 + 1")
    case True
    then have "?n' > maxUint64" by (simp add: maxUint64_def)
    with ge True Cons.prems show ?thesis by simp
  next
    case False
    show ?thesis
    proof (cases "?n' > maxUint64")
      case True
      with ge False Cons.prems show ?thesis by simp
    next
      case le: False
      then have "?n' \<le> maxUint64" by simp
      with Cons.IH [of ?n'] Cons.prems False le show ?thesis by simp
    qed
  qed
qed

lemma Atoi_numeric:
  assumes "numeric s"
  shows "Atoi s = (if int (decimal s) \<le> maxInt64 then (int (decimal s), None)
                  else (maxInt64, Some ErrRange))"
proof -
  from assms obtain c cs where s: "s = c # cs" and c: "is_digit c" and cs: "list_all is_digit s"
    by (cases s) (auto simp: numeric_def)
  from c have sign: "c \<noteq> CHR ''+''" "c \<noteq> CHR ''-''" by (auto simp: is_digit_def)
  have pu: "ParseUint s = (if decimal s \<le> maxUint64 then (decimal s, None)
                           else (maxUint64, Some ErrRange))"
    using ParseUint_loop_digits [OF cs, of 0] s by (simp add: ParseUint_def decimal_def)
  show ?thesis
  proof (cases "decimal s \<le> maxUint64")
    case True
    with pu s sign show ?thesis
      by (simp add: Atoi_def ParseInt_def Let_def maxInt64_def)
  next
    case False
    then have "int (decimal s) > maxInt64" by (simp add: maxUint64_def maxInt64_def)
    with False pu s sign show ?thesis
      by (simp add: Atoi_def ParseInt_def Let_def maxInt64_def maxUint64_def)
  qed
qed

lemma fst_Atoi_numeric: "numeric s \<Longrightarrow> fst (Atoi s) = min (int (decimal s)) maxInt64"
  by (simp add: Atoi_numeric min_def)

lemma ParseSemVer_accepts:
  assumes g: "semverGrammar (TrimPrefix raw ''v'') ma mi pa pre build"
  shows "ParseSemVer raw =
     Inr \<lparr>Original = raw,
          Major = min (int (decimal ma)) maxInt64,
          Minor = min (int (decimal mi)) maxInt64,
          Patch = min (int (decimal pa)) maxInt64,
          PreRelease = (case pre of None \<Rightarrow> [] | Some p \<Rightarrow> p),
          Build = (case build of None \<Rightarrow> [] | Some b \<Rightarrow> b)\<rparr>"
proof -
  from g have n: "numeric ma" "numeric mi" "numeric pa" by (simp_all add: semverGrammar_def)
  show ?thesis
    unfolding ParseSemVer_def Let_def FindStringSubmatch_groups [OF g]
    by (simp add: fst_Atoi_numeric n)
qed

lemma ParseSemVer_rejects:
  assumes "\<not> (\<exists>ma mi pa pre build. semverGrammar (TrimPrefix raw ''v'') ma mi pa pre build)"
  shows "ParseSemVer raw = Inl (ErrInvalidSemVer raw)"
  unfolding ParseSemVer_def Let_def FindStringSubmatch_None [OF assms] by simp

text \<open>
  What \<open>ParseSemVer\<close> computes, against the grammar: it succeeds exactly when the
  string, after one leading \<open>v\<close> is removed, follows the grammar; otherwise it fails
  with the error for the whole string and there is no partial result. On success
  \<open>Original\<close> is the string as given, \<open>PreRelease\<close> and \<open>Build\<close> are the matched
  parts (empty when absent), and each of \<open>Major\<close>, \<open>Minor\<close> and \<open>Patch\<close> is what
  \<open>Atoi\<close> returns for its component: the number the component denotes when that is
  at most \<open>maxInt64\<close>, and \<open>maxInt64\<close> otherwise.
\<close>

theorem ParseSemVer_grammar:
  "(isl (ParseSemVer raw) \<longleftrightarrow>
      \<not> (\<exists>ma mi pa pre build. semverGrammar (TrimPrefix raw ''v'') ma mi pa pre build)) \<and>
   (isl (ParseSemVer raw) \<longrightarrow> ParseSemVer raw = Inl (ErrInvalidSemVer raw)) \<and>
   (semverGrammar (TrimPrefix raw ''v'') ma mi pa pre build \<longrightarrow>
      ParseSemVer raw =
        Inr \<lparr>Original = raw,
             Major = min (int (decimal ma)) maxInt64,
             Minor = min (int (decimal mi)) maxInt64,
             Patch = min (int (decimal pa)) maxInt64,
             PreRelease = (case pre of None \<Rightarrow> [] | Some p \<Rightarrow> p),
             Build = (case build of None \<Rightarrow> [] | Some b \<Rightarrow> b)\<rparr>)"
proof (cases "\<exists>ma mi pa pre build. semverGrammar (TrimPrefix raw ''v'') ma mi pa pre build")
  case True
  then obtain ma' mi' pa' pre' build'
    where "semverGrammar (TrimPrefix raw ''v'') ma' mi' pa' pre' build'" by blast
  from ParseSemVer_accepts [OF this] have "\<not> isl (ParseSemVer raw)" by simp
  with True ParseSemVer_accepts [of raw ma mi pa pre build] show ?thesis by blast
next
  case False
  from ParseSemVer_rejects [OF this] have "ParseSemVer raw = Inl (ErrInvalidSemVer raw)" .
  with False show ?thesis by auto
qed

lemmas grammar_eval = semverGrammar_def semverText_def numeric_def identifiers_def decimal_def

theorem ParseSemVer_grammar_witness:
  "semverGrammar (TrimPrefix ''v1.2.3-rc.1+build.5'' ''v'') ''1'' ''2'' ''3'' (Some ''rc.1'') (Some ''build.5'') \<and>
   ParseSemVer ''v1.2.3-rc.1+build.5'' =
     Inr \<lparr>Original = ''v1.2.3-rc.1+build.5'', Major = 1, Minor = 2, Patch = 3,
          PreRelease = ''rc.1'', Build = ''build.5''\<rparr> \<and>
   ParseSemVer ''1.2.3.4'' = Inl (ErrInvalidSemVer ''1.2.3.4'')"
proof -
  have g: "semverGrammar (TrimPrefix ''v1.2.3-rc.1+build.5'' ''v'') ''1'' ''2'' ''3''
      (Some ''rc.1'') (Some ''build.5'')"
    by (simp add: grammar_eval str_eval is_idchar_def is_digit_def)
  have d: "min (int (decimal ''1'')) maxInt64 = 1" "min (int (decimal ''2'')) maxInt64 = 2"
    "min (int (decimal ''3'')) maxInt64 = 3"
    by (simp_all add: decimal_def digit_val_def maxInt64_def)
  have r: "isl (ParseSemVer ''1.2.3.4'')"
    by (simp add: ParseSemVer_def FindStringSubmatch_def rx_eval is_digit_def str_eval)
  note T = ParseSemVer_grammar [of "''v1.2.3-rc.1+build.5''" "''1''" "''2''" "''3''"
      "Some ''rc.1''" "Some ''build.5''"]
  from T g have "ParseSemVer ''v1.2.3-rc.1+build.5'' =
     Inr \<lparr>Original = ''v1.2.3-rc.1+build.5'', Major = min (int (decimal ''1'')) maxInt64,
          Minor = min (int (decimal ''2'')) maxInt64, Patch = min (int (decimal ''3'')) maxInt64,
          PreRelease = (case Some ''rc.1'' of None \<Rightarrow> [] | Some p \<Rightarrow> p),
          Build = (case Some ''build.5'' of None \<Rightarrow> [] | Some b \<Rightarrow> b)\<rparr>" by blast
  then have a: "ParseSemVer ''v1.2.3-rc.1+build.5'' =
     Inr \<lparr>Original = ''v1.2.3-rc.1+build.5'', Major = 1, Minor = 2, Patch = 3,
          PreRelease = ''rc.1'', Build = ''build.5''\<rparr>" by (simp only: d option.case)
  from ParseSemVer_grammar [of "''1.2.3.4''"] r
  have b: "ParseSemVer ''1.2.3.4'' = Inl (ErrInvalidSemVer ''1.2.3.4'')" by blast
  from g a b show ?thesis by blast
qed

text \<open>
  C5. The fields are to equal the matched components. \<open>ParseSemVer\<close> drops the
  error of \<open>Atoi\<close>, so a component beyond the range of \<open>int\<close> is accepted and
  stored as \<open>9223372036854775807\<close>: the version 99999999999999999999.0.0 gets that
  major number, and it compares \<open>Equal\<close> to 99999999999999999998.0.0. The calendar
  comparator checks the same error and reports the component as invalid.
\<close>

theorem ParseSemVer_overflow:
  "semverGrammar (TrimPrefix ''99999999999999999999.0.0'' ''v'') ''99999999999999999999'' ''0'' ''0'' None None \<and>
   decimal ''99999999999999999999'' = 99999999999999999999 \<and>
   ParseSemVer ''99999999999999999999.0.0'' =
     Inr \<lparr>Original = ''99999999999999999999.0.0'', Major = 9223372036854775807, Minor = 0,
          Patch = 0, PreRelease = [], Build = []\<rparr> \<and>
   CompareSemVer ''99999999999999999999.0.0'' ''99999999999999999998.0.0'' = Inr Equal \<and>
   CompareCalVer ''99999999999999999999.1.1'' ''2024.1.1''
     = Inl (ErrInvalidCalVerNumber ''99999999999999999999'')"
  by (simp add: grammar_eval cmp_eval CompareCalVer_def rx_eval atoi_eval str_eval Let_def)

theorem ParseSemVer_overflow_witness:
  "ParseSemVer ''99999999999999999999.0.0'' \<noteq>
     Inr \<lparr>Original = ''99999999999999999999.0.0'', Major = 99999999999999999999, Minor = 0,
          Patch = 0, PreRelease = [], Build = []\<rparr> \<and>
   CompareSemVer ''99999999999999999999.0.0'' ''99999999999999999998.0.0'' \<noteq> Inr Greater"
  using ParseSemVer_overflow by simp

section \<open>The branches that follow the specification\<close>

text \<open>
  The update decision under the schemes \<open>semver\<close> and \<open>string\<close> and under an unknown
  scheme: an error exactly when one of the two stripped strings does not parse or the
  scheme is unknown, otherwise the verdict of the comparator.
\<close>

lemma TrimPrefix_empty: "TrimPrefix s [] = s"
  by (simp add: TrimPrefix_def)

lemma compareVersions_by_scheme:
  "compareVersions current latest versioning =
     (let c = stripped versioning current; l = stripped versioning latest;
          scheme = effectiveScheme versioning
      in if scheme = ''semver'' then
           (case CompareSemVer c l of Inl err \<Rightarrow> Inl err | Inr result \<Rightarrow> Inr (result = Less))
         else if scheme = ''calver'' then
           (case CompareCalVer c l of Inl err \<Rightarrow> Inl err | Inr result \<Rightarrow> Inr (result = Less))
         else if scheme = ''string'' then
           (case CompareString c l of Inl err \<Rightarrow> Inl err | Inr result \<Rightarrow> Inr (result = Less))
         else Inl (ErrUnsupportedScheme scheme))"
  by (cases versioning)
     (simp_all add: compareVersions_def stripped_def effectiveScheme_def Let_def TrimPrefix_empty)

lemma compareVersions_semver:
  assumes "effectiveScheme versioning = ''semver''"
  shows "(isl (compareVersions current latest versioning) \<longleftrightarrow>
            isl (ParseSemVer (stripped versioning current)) \<or>
            isl (ParseSemVer (stripped versioning latest))) \<and>
         (ParseSemVer (stripped versioning current) = Inr a \<and>
          ParseSemVer (stripped versioning latest) = Inr b \<longrightarrow>
            compareVersions current latest versioning = Inr (Compare a b = Less))"
  using assms
  by (auto simp: compareVersions_by_scheme CompareSemVer_def Let_def split: sum.splits)

lemma compareVersions_string:
  assumes "effectiveScheme versioning = ''string''"
  shows "compareVersions current latest versioning
           = Inr (stripped versioning current < stripped versioning latest)"
  using assms by (auto simp: compareVersions_by_scheme CompareString_def Let_def)

lemma compareVersions_unsupported:
  assumes "effectiveScheme versioning \<noteq> ''semver''" "effectiveScheme versioning \<noteq> ''calver''"
    "effectiveScheme versioning \<noteq> ''string''"
  shows "compareVersions current latest versioning
           = Inl (ErrUnsupportedScheme (effectiveScheme versioning))"
  using assms by (simp add: compareVersions_by_scheme Let_def)

text \<open>
  Under \<open>semver\<close> the tag selected is maximal for the comparator among the surviving
  tags; under \<open>calver\<close> the sorted list is ordered as strings.
\<close>

lemma sorted_wrt_last:
  "sorted_wrt R xs \<Longrightarrow> x \<in> set xs \<Longrightarrow> x = last xs \<or> R x (last xs)"
  by (induction xs) (auto split: if_splits)

lemma SortSemVer_last_maximal:
  assumes u: "ParseSemVer u = Inr vu" "u \<in> set tags" and ne: "SortSemVer tags \<noteq> []"
  shows "\<exists>vt. ParseSemVer (last (SortSemVer tags)) = Inr vt \<and> Compare vu vt \<noteq> Greater"
proof -
  let ?lt = "\<lambda>a b. Compare a b = Less"
  let ?S = "sort_Slice ?lt (parseAll tags)"
  from ne have Sne: "?S \<noteq> []" by (auto simp: SortSemVer_def)
  then have l: "last (SortSemVer tags) = Original (last ?S)"
    by (simp add: SortSemVer_def last_map)
  from Sne have "last ?S \<in> set (parseAll tags)"
    using last_in_set [OF Sne] by (simp add: set_sort_Slice)
  then have vt: "ParseSemVer (Original (last ?S)) = Inr (last ?S)" by (rule parseAll_reparse)
  from u have "vu \<in> set (parseAll tags)"
    by (force simp: parseAll_def)
  then have "vu \<in> set ?S" by (simp add: set_sort_Slice)
  with sorted_wrt_last [OF sorted_sort_Slice [OF strict_weak_Compare]]
  have "vu = last ?S \<or> Compare (last ?S) vu \<noteq> Less" by blast
  then have "Compare vu (last ?S) \<noteq> Greater"
    using Compare_swap [of vu "last ?S"] Compare_same [of vu]
    by (cases "Compare (last ?S) vu") auto
  with vt l show ?thesis by simp
qed

lemma selectLatest_semver_maximal:
  assumes "selectLatest tags ''semver'' sfx = Inr t" and "u \<in> set (survivors tags ''semver'' sfx)"
  shows "\<exists>r. CompareSemVer u t = Inr r \<and> r \<noteq> Greater"
proof -
  let ?S = "survivors tags ''semver'' sfx"
  from assms(2) have Sne: "?S \<noteq> []" by auto
  from assms(1) findLatest_survivors_semver [OF Sne]
  have t: "t = last (SortSemVer ?S)" by (simp add: selectLatest_survivors)
  from Sne have ne: "SortSemVer ?S \<noteq> []"
    using set_sort_survivors_semver [of tags sfx] by (metis set_empty)
  from survivors_valid_semver [OF assms(2)] obtain vu where vu: "ParseSemVer u = Inr vu"
    by (auto split: sum.splits)
  from SortSemVer_last_maximal [OF vu assms(2) ne] t vu show ?thesis
    by (auto simp: CompareSemVer_def)
qed

lemma SortCalVer_string_sorted: "sorted_wrt (\<lambda>a b. a \<le> b) (SortCalVer tags)"
proof -
  have "sorted_wrt (\<lambda>a b :: string. \<not> b < a) (sort_Strings (FilterValidCalVer tags))"
    unfolding sort_Strings_def by (rule sorted_sort_Slice [OF strict_weak_string])
  then show ?thesis by (simp add: SortCalVer_def not_less)
qed

end
